theory Spec2Isabelle
  imports Complex_Main
begin

section \<open>Black-box manipulations of PE files: padding, DOS header, section injection\<close>

text \<open>
  The development embeds the four problem classes of \<^verbatim>\<open>detexe/pea/blackbox\<close>:
  \<^verbatim>\<open>CBlackBoxPaddingEvasionProblem\<close>, \<^verbatim>\<open>CBlackBoxHeaderEvasionProblem\<close>,
  \<^verbatim>\<open>CGammaEvasionProblem\<close> and \<^verbatim>\<open>CGammaSectionsEvasionProblem\<close>.

  Conventions of the embedding.
  \<^item> A sample \<open>x\<close> (a \<^verbatim>\<open>CArray\<close> of shape \<open>(1, n)\<close>) is the list of its \<open>n\<close> entries. The
    entries are \<open>int\<close>, not bytes: the arrays are integer arrays and the code stores whatever
    \<^verbatim>\<open>astype(int)\<close> produced.
  \<^item> A latent vector \<open>t\<close> is a list of \<open>real\<close>: the value of each of its doubles. The products
    \<^verbatim>\<open>t * 255\<close> and \<^verbatim>\<open>len(content) * t[i]\<close> are binary64 products: the exact product, rounded
    (\<open>b64_mul\<close>).
  \<^item> Every \<^verbatim>\<open>raise\<close> that the Python can reach is a value \<open>Inl e\<close>.
  \<^item> A method that assigns to \<^verbatim>\<open>self\<close> returns the object next to its outcome, also when the
    outcome is an exception.
\<close>

subsection \<open>Python and numpy primitives\<close>

datatype error = IndexError | ValueError | StructError | AttributeError | TypeError | OverflowError

text \<open>\<^verbatim>\<open>int(round(r))\<close>: Python 3 rounds a tie to the even neighbour.\<close>

definition py_round :: "real \<Rightarrow> int" where
  "py_round r =
     (let f = \<lfloor>r\<rfloor>; d = r - of_int f
      in if d < 1 / 2 then f
         else if 1 / 2 < d then f + 1
         else if even f then f else f + 1)"

text \<open>
  IEEE 754 binary64 with the default rounding. A real \<open>r\<close> with \<open>2\<^sup>E \<le> \<bar>r\<bar> < 2\<^sup>E\<^sup>+\<^sup>1\<close> lies
  between doubles that are \<open>2\<^sup>E\<^sup>-\<^sup>5\<^sup>2\<close> apart, and \<open>2\<^sup>-\<^sup>1\<^sup>0\<^sup>7\<^sup>4\<close> apart in the subnormal range
  (\<open>b64_exponent\<close>). It is rounded to the nearest of them, a tie to the one with the even
  significand (\<open>b64_nearest\<close>). No double has the magnitude \<open>2\<^sup>1\<^sup>0\<^sup>2\<^sup>4\<close> or more: the operation
  then returns an infinity, which is \<open>None\<close> (\<open>b64_round\<close>). The product of two doubles is their
  exact product, rounded once.
\<close>

definition b64_exponent :: "real \<Rightarrow> int" where
  "b64_exponent r = max (\<lfloor>log 2 \<bar>r\<bar>\<rfloor> - 52) (- 1074)"

definition b64_nearest :: "real \<Rightarrow> real" where
  "b64_nearest r =
     (if r = 0 then 0
      else of_int (py_round (r / 2 powr of_int (b64_exponent r))) * 2 powr of_int (b64_exponent r))"

definition b64_round :: "real \<Rightarrow> real option" where
  "b64_round r = (if 2 ^ 1024 \<le> \<bar>b64_nearest r\<bar> then None else Some (b64_nearest r))"

definition b64_mul :: "real \<Rightarrow> real \<Rightarrow> real option" where
  "b64_mul a b = b64_round (a * b)"

text \<open>
  \<^verbatim>\<open>ndarray.astype(int)\<close> on doubles: the fractional part is dropped (truncation toward 0) and
  the result is a 64-bit integer. An infinity, and a value whose integer part does not fit
  64 bits, become the least 64-bit integer: this is what the conversion of x86-64 yields,
  the C standard leaving the case open.
\<close>

definition astype_int :: "real option \<Rightarrow> int" where
  "astype_int p =
     (case p of
        None \<Rightarrow> - (2 ^ 63)
      | Some r \<Rightarrow>
          (let k = (if 0 \<le> r then \<lfloor>r\<rfloor> else \<lceil>r\<rceil>)
           in if - (2 ^ 63) \<le> k \<and> k < 2 ^ 63 then k else - (2 ^ 63)))"

text \<open>\<^verbatim>\<open>byte_values = (t * 255).astype(np.int)\<close>\<close>

definition byte_values :: "real list \<Rightarrow> int list" where
  "byte_values t = map (\<lambda>c. astype_int (b64_mul c 255)) t"

text \<open>\<^verbatim>\<open>xs[:k]\<close>: a negative \<open>k\<close> counts from the end, and no \<open>k\<close> raises.\<close>

definition slice_to :: "int \<Rightarrow> 'a list \<Rightarrow> 'a list" where
  "slice_to k xs = (if 0 \<le> k then take (nat k) xs else take (nat (int (length xs) + k)) xs)"

text \<open>
  \<^verbatim>\<open>content[: int(round(len(content) * t_i))]\<close>, the expression shared by both GAMMA decoders.
  The length becomes a double (exactly: a list of Python is shorter than \<open>2\<^sup>5\<^sup>3\<close>), the
  product is a binary64 product, and \<^verbatim>\<open>round\<close> raises \<^verbatim>\<open>OverflowError\<close> on an infinity.
\<close>

definition take_count :: "int list \<Rightarrow> real \<Rightarrow> error + int" where
  "take_count content ti =
     (case b64_mul (of_nat (length content)) ti of
        None \<Rightarrow> Inl OverflowError
      | Some p \<Rightarrow> Inr (py_round p))"

definition content_to_append :: "int list \<Rightarrow> real \<Rightarrow> error + int list" where
  "content_to_append content ti =
     (case take_count content ti of
        Inl e \<Rightarrow> Inl e
      | Inr k \<Rightarrow> Inr (slice_to k content))"

subsection \<open>\<^verbatim>\<open>CBlackBoxPaddingEvasionProblem\<close> and \<^verbatim>\<open>CBlackBoxHeaderEvasionProblem\<close>\<close>

text \<open>
  \<open>latent_space_size\<close> is the one attribute of the base class \<^verbatim>\<open>CBlackBoxProblem\<close> that the
  two constructors set through \<^verbatim>\<open>super().__init__\<close>.
\<close>

record blackbox_problem =
  latent_space_size :: nat

record perturbation_problem = blackbox_problem +
  invalid_value :: int
  indexes_to_perturb :: "nat list"

record header_problem = perturbation_problem +
  optimize_all_dos :: bool

definition CBlackBoxPaddingEvasionProblem :: "nat \<Rightarrow> int \<Rightarrow> perturbation_problem" where
  "CBlackBoxPaddingEvasionProblem how_many_padding_bytes invalid =
     \<lparr>latent_space_size = how_many_padding_bytes, invalid_value = invalid,
      indexes_to_perturb = [0..<how_many_padding_bytes]\<rparr>"

text \<open>
  \<^verbatim>\<open>byte_values = (t * 255).astype(np.int); x_adv = x.append(byte_values)\<close>.
  The method reads no attribute of \<^verbatim>\<open>self\<close>.
\<close>

definition padding_apply_feasible_manipulations :: "real list \<Rightarrow> int list \<Rightarrow> int list" where
  "padding_apply_feasible_manipulations t x = x @ byte_values t"

definition CBlackBoxHeaderEvasionProblem :: "bool \<Rightarrow> int \<Rightarrow> header_problem" where
  "CBlackBoxHeaderEvasionProblem all_dos invalid =
     \<lparr>latent_space_size = 58, invalid_value = invalid, indexes_to_perturb = [2..<60],
      optimize_all_dos = all_dos\<rparr>"

text \<open>
  \<^verbatim>\<open>struct.unpack("<I", bytes(x[0, 60:64].tolist()[0]))[0]\<close>. The slice holds the entries
  at offsets 60 to 63 that exist; \<^verbatim>\<open>bytes\<close> raises \<^verbatim>\<open>ValueError\<close> on an entry outside
  \<open>0..255\<close>, then \<^verbatim>\<open>struct.unpack\<close> raises \<^verbatim>\<open>struct.error\<close> unless it got four bytes.
\<close>

definition unpack_le32 :: "int list \<Rightarrow> nat" where
  "unpack_le32 bs = nat (bs ! 0 + 256 * (bs ! 1) + 65536 * (bs ! 2) + 16777216 * (bs ! 3))"

definition read_pe_index :: "int list \<Rightarrow> error + nat" where
  "read_pe_index x =
     (let s = take 4 (drop 60 x)
      in if \<exists>v \<in> set s. v < 0 \<or> 255 < v then Inl ValueError
         else if length s \<noteq> 4 then Inl StructError
         else Inr (unpack_le32 s))"

text \<open>
  \<^verbatim>\<open>init_starting_point\<close>, the statements before the \<^verbatim>\<open>return\<close>: the offsets are reset,
  extended by \<^verbatim>\<open>range(64, pe_index)\<close> when \<^verbatim>\<open>optimize_all_dos\<close> is set, and counted. When reading
  the pointer raises, the reset has happened and the count has not.
\<close>

definition header_set_indexes :: "header_problem \<Rightarrow> int list \<Rightarrow> (error + unit) \<times> header_problem" where
  "header_set_indexes self x =
     (let self1 = self\<lparr>indexes_to_perturb := [2..<60]\<rparr>
      in if optimize_all_dos self1 then
           (case read_pe_index x of
              Inl e \<Rightarrow> (Inl e, self1)
            | Inr pe_index \<Rightarrow>
                (let self2 = self1\<lparr>indexes_to_perturb := indexes_to_perturb self1 @ [64..<pe_index]\<rparr>
                 in (Inr (), self2\<lparr>latent_space_size := length (indexes_to_perturb self2)\<rparr>)))
         else (Inr (), self1\<lparr>latent_space_size := length (indexes_to_perturb self1)\<rparr>))"

text \<open>
  \<^verbatim>\<open>init_starting_point\<close> as a whole. The \<^verbatim>\<open>return\<close> delegates to the initializer of the base
  class, which is not among the sources: it is the parameter \<open>super_init\<close>, called on the
  object as the statements above left it.
\<close>

definition header_init_starting_point ::
  "(header_problem \<Rightarrow> int list \<Rightarrow> (error + 'r) \<times> header_problem) \<Rightarrow>
   header_problem \<Rightarrow> int list \<Rightarrow> (error + 'r) \<times> header_problem" where
  "header_init_starting_point super_init self x =
     (case header_set_indexes self x of
        (Inl e, self1) \<Rightarrow> (Inl e, self1)
      | (Inr _, self1) \<Rightarrow> super_init self1 x)"

text \<open>
  The loop \<^verbatim>\<open>for i, index in enumerate(self.indexes_to_perturb): x_adv[0, index] = byte_values[i]\<close>
  on the copy \<open>x_adv\<close>. Reading \<^verbatim>\<open>byte_values[i]\<close> past the end and writing past the end of
  the row both raise \<^verbatim>\<open>IndexError\<close>. The integer is stored as it is: an array of a narrower
  element type would reduce a value outside its range, which no byte is.
\<close>

fun header_overwrite :: "int list \<Rightarrow> nat \<Rightarrow> nat list \<Rightarrow> int list \<Rightarrow> error + int list" where
  "header_overwrite bv i [] x_adv = Inr x_adv"
| "header_overwrite bv i (index # rest) x_adv =
     (if length bv \<le> i then Inl IndexError
      else if length x_adv \<le> index then Inl IndexError
      else header_overwrite bv (Suc i) rest (x_adv[index := bv ! i]))"

definition header_apply_feasible_manipulations ::
  "header_problem \<Rightarrow> real list \<Rightarrow> int list \<Rightarrow> error + int list" where
  "header_apply_feasible_manipulations self t x =
     header_overwrite (byte_values t) 0 (indexes_to_perturb self) x"

subsection \<open>\<^verbatim>\<open>CGammaEvasionProblem\<close>: raw append\<close>

text \<open>
  The attribute \<^verbatim>\<open>fitness_\<close> is the field \<open>self_fitness\<close> (a name of Isabelle cannot end
  with an underscore). It belongs to the base class, whose constructor is not among the
  sources: the constructors below take the value that constructor gives it.
\<close>

record gamma_problem = blackbox_problem +
  section_population :: "int list list"
  payload_max_size :: nat
  self_fitness :: "real list"

definition CGammaEvasionProblem :: "int list list \<Rightarrow> real list \<Rightarrow> gamma_problem" where
  "CGammaEvasionProblem population fitness0 =
     \<lparr>latent_space_size = length population,
      section_population = population,
      payload_max_size = sum_list (map length population),
      self_fitness = fitness0\<rparr>"

text \<open>
  The loop \<^verbatim>\<open>for i in range(t.shape[-1])\<close>, here over the list of the indices still to visit:
  \<^verbatim>\<open>self.section_population[i]\<close> raises \<^verbatim>\<open>IndexError\<close> past the end of the corpus, and the
  slice raises when its bound is the rounding of an infinity.
\<close>

fun gamma_append ::
  "'a gamma_problem_scheme \<Rightarrow> real list \<Rightarrow> nat list \<Rightarrow> int list \<Rightarrow> error + int list" where
  "gamma_append self t [] x_adv = Inr x_adv"
| "gamma_append self t (i # rest) x_adv =
     (if length (section_population self) \<le> i then Inl IndexError
      else case content_to_append (section_population self ! i) (t ! i) of
             Inl e \<Rightarrow> Inl e
           | Inr cs \<Rightarrow> gamma_append self t rest (x_adv @ cs))"

definition gamma_apply_feasible_manipulations ::
  "'a gamma_problem_scheme \<Rightarrow> real list \<Rightarrow> int list \<Rightarrow> error + int list" where
  "gamma_apply_feasible_manipulations self t x = gamma_append self t [0..<length t] x"

subsection \<open>\<^verbatim>\<open>CGammaSectionsEvasionProblem\<close>: registered sections\<close>

text \<open>
  LIEF is a library outside the repository. The decoder uses three of its operations, which
  are the fields of \<open>lief\<close> over an abstract type \<open>'b\<close> of parsed binaries:
  \<^verbatim>\<open>lief.PE.parse(raw=...)\<close> (\<open>None\<close> when the bytes are no PE file), \<^verbatim>\<open>Binary.add_section\<close>
  and \<^verbatim>\<open>Builder(...).build(); get_build()\<close>. A \<open>pe_section\<close> is the \<^verbatim>\<open>lief.PE.Section\<close> object
  as the decoder fills it: the name given to the constructor and the assigned content.
\<close>

record pe_section =
  name :: string
  content :: "int list"

record 'b lief =
  parse :: "int list \<Rightarrow> 'b option"
  add_section :: "'b \<Rightarrow> pe_section \<Rightarrow> 'b"
  build :: "'b \<Rightarrow> int list"

text \<open>
  The generator of the module \<^verbatim>\<open>random\<close> is global state. It is the stream of the numbers
  it will draw; \<^verbatim>\<open>random.choice(seq)\<close> takes the next one, reduced to an index of \<open>seq\<close>.
\<close>

type_synonym random_state = "nat \<Rightarrow> nat"

definition ascii_letters :: string where
  "ascii_letters = ''abcdefghijklmnopqrstuvwxyzABCDEFGHIJKLMNOPQRSTUVWXYZ''"

definition random_choice :: "'a list \<Rightarrow> random_state \<Rightarrow> 'a \<times> random_state" where
  "random_choice seq g = (seq ! (g 0 mod length seq), (\<lambda>n. g (Suc n)))"

text \<open>\<^verbatim>\<open>"".join(random.choice(string.ascii_letters) for _ in range(k))\<close>\<close>

fun random_letters :: "nat \<Rightarrow> random_state \<Rightarrow> string \<times> random_state" where
  "random_letters 0 g = ([], g)"
| "random_letters (Suc k) g =
     (let (c, g1) = random_choice ascii_letters g;
          (cs, g2) = random_letters k g1
      in (c # cs, g2))"

text \<open>
  The attributes \<^verbatim>\<open>names_\<close> and \<^verbatim>\<open>best_names_\<close> are the fields \<open>self_names\<close> and
  \<open>self_best_names\<close>.
\<close>

record gamma_sections_problem = gamma_problem +
  random_names :: bool
  self_names :: "string list list"
  self_best_names :: "string list"

definition CGammaSectionsEvasionProblem ::
  "int list list \<Rightarrow> real list \<Rightarrow> bool \<Rightarrow> gamma_sections_problem" where
  "CGammaSectionsEvasionProblem population fitness0 rand_names =
     \<lparr>latent_space_size = length population,
      section_population = population,
      payload_max_size = sum_list (map length population),
      self_fitness = fitness0,
      random_names = rand_names,
      self_names = [],
      self_best_names = []\<rparr>"

text \<open>
  \<^verbatim>\<open>init_starting_point\<close>: the initializer of the base class (the parameter \<open>super_init\<close>) runs
  first; the two name lists are emptied when it returns.
\<close>

definition sections_init_starting_point ::
  "(gamma_sections_problem \<Rightarrow> int list \<Rightarrow> (error + 'r) \<times> gamma_sections_problem) \<Rightarrow>
   gamma_sections_problem \<Rightarrow> int list \<Rightarrow> (error + 'r) \<times> gamma_sections_problem" where
  "sections_init_starting_point super_init self x =
     (case super_init self x of
        (Inl e, self1) \<Rightarrow> (Inl e, self1)
      | (Inr original, self1) \<Rightarrow> (Inr original, self1\<lparr>self_best_names := [], self_names := []\<rparr>))"

text \<open>
  The body of \<^verbatim>\<open>for i in range(self.latent_space_size)\<close>, over the indices still to visit.
  In the order of the source: \<^verbatim>\<open>self.section_population[i]\<close> and \<^verbatim>\<open>t[i]\<close> raise
  \<^verbatim>\<open>IndexError\<close> past the end; the slice raises \<^verbatim>\<open>OverflowError\<close> when its bound is the
  rounding of an infinity; \<^verbatim>\<open>self.best_names_[i]\<close>, read when \<^verbatim>\<open>best_names_\<close> is not empty,
  raises \<^verbatim>\<open>IndexError\<close> past the end; otherwise eight letters are drawn; \<^verbatim>\<open>lief_adv.add_section\<close> raises
  \<^verbatim>\<open>AttributeError\<close> when the parser returned \<^verbatim>\<open>None\<close>. The generator is returned as the
  loop left it, whatever the outcome.
\<close>

fun inject_sections ::
  "'b lief \<Rightarrow> gamma_sections_problem \<Rightarrow> real list \<Rightarrow> nat list \<Rightarrow> 'b option \<Rightarrow> string list \<Rightarrow>
   random_state \<Rightarrow> (error + 'b option \<times> string list) \<times> random_state" where
  "inject_sections L self t [] lief_adv names g = (Inr (lief_adv, names), g)"
| "inject_sections L self t (i # rest) lief_adv names g =
     (if length (section_population self) \<le> i then (Inl IndexError, g)
      else if length t \<le> i then (Inl IndexError, g)
      else case content_to_append (section_population self ! i) (t ! i) of
        Inl e \<Rightarrow> (Inl e, g)
      | Inr cs \<Rightarrow>
          if self_best_names self \<noteq> [] \<and> length (self_best_names self) \<le> i then (Inl IndexError, g)
          else
            let (section_name, g1) =
                  (if self_best_names self \<noteq> [] then (self_best_names self ! i, g)
                   else random_letters 8 g);
                s = \<lparr>name = section_name, content = cs\<rparr>
            in case lief_adv of
                 None \<Rightarrow> (Inl AttributeError, g1)
               | Some b \<Rightarrow> inject_sections L self t rest (Some (add_section L b s))
                            (names @ [section_name]) g1)"

text \<open>
  \<^verbatim>\<open>apply_feasible_manipulations\<close>. \<^verbatim>\<open>self.names_.append(names)\<close> follows the loop and
  precedes the builder, which raises \<^verbatim>\<open>TypeError\<close> on \<^verbatim>\<open>None\<close> (reached with an empty corpus
  only).
\<close>

definition sections_apply_feasible_manipulations ::
  "'b lief \<Rightarrow> gamma_sections_problem \<Rightarrow> random_state \<Rightarrow> real list \<Rightarrow> int list \<Rightarrow>
   (error + int list) \<times> gamma_sections_problem \<times> random_state" where
  "sections_apply_feasible_manipulations L self g t x =
     (case inject_sections L self t [0..<latent_space_size self] (parse L x) [] g of
        (Inl e, g1) \<Rightarrow> (Inl e, self, g1)
      | (Inr (lief_adv, names), g1) \<Rightarrow>
          (let self1 = self\<lparr>self_names := self_names self @ [names]\<rparr>
           in case lief_adv of
                None \<Rightarrow> (Inl TypeError, self1, g1)
              | Some b \<Rightarrow> (Inr (build L b), self1, g1)))"

text \<open>
  \<^verbatim>\<open>np.argmin\<close>: the first position of the least element; \<^verbatim>\<open>ValueError\<close> on an empty
  sequence.
\<close>

fun argmin_from :: "real \<Rightarrow> nat \<Rightarrow> nat \<Rightarrow> real list \<Rightarrow> nat" where
  "argmin_from best k j [] = k"
| "argmin_from best k j (v # vs) =
     (if v < best then argmin_from v j (Suc j) vs else argmin_from best k (Suc j) vs)"

definition argmin :: "real list \<Rightarrow> error + nat" where
  "argmin vs = (case vs of [] \<Rightarrow> Inl ValueError | v # rest \<Rightarrow> Inr (argmin_from v 0 1 rest))"

text \<open>
  \<^verbatim>\<open>_export_internal_results\<close>. The hook of the base class (the parameter \<open>super_export\<close>) runs
  first; \<^verbatim>\<open>self.fitness_[1:]\<close> and \<^verbatim>\<open>self.names_\<close> are read from the object as that call left
  it, and \<^verbatim>\<open>self.names_[index]\<close> raises \<^verbatim>\<open>IndexError\<close> past the end.
\<close>

definition sections_export_internal_results ::
  "(gamma_sections_problem \<Rightarrow> (error + 'r) \<times> gamma_sections_problem) \<Rightarrow>
   gamma_sections_problem \<Rightarrow> (error + 'r) \<times> gamma_sections_problem" where
  "sections_export_internal_results super_export self =
     (case super_export self of
        (Inl e, self1) \<Rightarrow> (Inl e, self1)
      | (Inr res, self1) \<Rightarrow>
          (case argmin (drop 1 (self_fitness self1)) of
             Inl e \<Rightarrow> (Inl e, self1)
           | Inr index \<Rightarrow>
               if length (self_names self1) \<le> index then (Inl IndexError, self1)
               else (Inr res, self1\<lparr>self_best_names := self_names self1 ! index\<rparr>)))"

text \<open>
  An instance of the interface for the examples below: a binary is the list of its sections
  in the order of registration, a non-empty file parses to one section holding it,
  \<open>add_section\<close> appends, and the builder writes each section as its length followed by
  its content.
\<close>

definition toy_lief :: "pe_section list lief" where
  "toy_lief =
     \<lparr>parse = (\<lambda>x. if x = [] then None else Some [\<lparr>name = ''.text'', content = x\<rparr>]),
      add_section = (\<lambda>b s. b @ [s]),
      build = (\<lambda>b. concat (map (\<lambda>s. int (length (content s)) # content s) b))\<rparr>"

section \<open>Properties\<close>

subsection \<open>Rounding to the nearest integer and to the nearest double\<close>

lemma py_round_of_int [simp]: "py_round (of_int n) = n"
  by (simp add: py_round_def)

lemma py_round_bounds: "\<lfloor>r\<rfloor> \<le> py_round r \<and> py_round r \<le> \<lfloor>r\<rfloor> + 1"
  by (simp add: py_round_def Let_def)

lemma py_round_mono: "a \<le> b \<Longrightarrow> py_round a \<le> py_round b"
proof -
  assume ab: "a \<le> b"
  then have fl: "\<lfloor>a\<rfloor> \<le> \<lfloor>b\<rfloor>" by (rule floor_mono)
  show ?thesis
  proof (cases "\<lfloor>a\<rfloor> = \<lfloor>b\<rfloor>")
    case True
    with ab show ?thesis by (auto simp: py_round_def Let_def)
  next
    case False
    with fl have "\<lfloor>a\<rfloor> + 1 \<le> \<lfloor>b\<rfloor>" by simp
    with py_round_bounds [of a] py_round_bounds [of b] show ?thesis by linarith
  qed
qed

lemma pow2_int: "0 \<le> j \<Longrightarrow> (2::real) powr of_int j = of_int (2 ^ nat j)"
proof -
  assume "0 \<le> j"
  then have "of_int j = real (nat j)" by simp
  then have "(2::real) powr of_int j = 2 ^ nat j" by (simp only: powr_realpow zero_less_numeral)
  then show ?thesis by simp
qed

lemma binade:
  assumes "r \<noteq> 0"
  shows "2 powr of_int \<lfloor>log 2 \<bar>r\<bar>\<rfloor> \<le> \<bar>r\<bar> \<and> \<bar>r\<bar> < 2 powr of_int (\<lfloor>log 2 \<bar>r\<bar>\<rfloor> + 1)"
  using floor_log_eq_powr_iff [of "\<bar>r\<bar>" 2 "\<lfloor>log 2 \<bar>r\<bar>\<rfloor>"] assms by simp

lemma b64_exponent_eq:
  assumes "2 powr of_int E \<le> \<bar>r\<bar>" "\<bar>r\<bar> < 2 powr of_int (E + 1)"
  shows "b64_exponent r = max (E - 52) (- 1074)"
proof -
  have "0 < \<bar>r\<bar>" using assms(1) by (smt (verit) powr_gt_zero)
  then have "\<lfloor>log 2 \<bar>r\<bar>\<rfloor> = E"
    using floor_log_eq_powr_iff [of "\<bar>r\<bar>" 2 E] assms by simp
  then show ?thesis by (simp add: b64_exponent_def)
qed

lemma b64_nearest_exact:
  assumes m: "\<bar>m\<bar> < 2 ^ 53" and k: "- 1074 \<le> k"
  shows "b64_nearest (of_int m * 2 powr of_int k) = of_int m * 2 powr of_int k"
proof (cases "m = 0")
  case True
  then show ?thesis by (simp add: b64_nearest_def)
next
  case False
  let ?r = "of_int m * 2 powr of_int k :: real"
  let ?e = "b64_exponent ?r"
  have r0: "?r \<noteq> 0" using False by simp
  have "\<bar>?r\<bar> = of_int \<bar>m\<bar> * 2 powr of_int k" by (simp add: abs_mult)
  also have "\<dots> < of_int (2 ^ 53) * 2 powr of_int k"
    using m by (intro mult_strict_right_mono) (simp_all del: of_int_power of_int_abs)
  also have "\<dots> = 2 powr of_int (k + 53)" by (simp add: powr_add)
  finally have up: "\<bar>?r\<bar> < 2 powr of_int (k + 53)" .
  from binade [OF r0] have "2 powr of_int \<lfloor>log 2 \<bar>?r\<bar>\<rfloor> \<le> \<bar>?r\<bar>" by simp
  with up have "(2::real) powr of_int \<lfloor>log 2 \<bar>?r\<bar>\<rfloor> < 2 powr of_int (k + 53)" by linarith
  then have "\<lfloor>log 2 \<bar>?r\<bar>\<rfloor> < k + 53" by simp
  with k have ek: "?e \<le> k" by (simp add: b64_exponent_def)
  have p: "(2::real) powr of_int (k - ?e) = of_int (2 ^ nat (k - ?e))"
    using ek by (intro pow2_int) simp
  have "?r / 2 powr of_int ?e = of_int m * 2 powr of_int (k - ?e)"
    by (simp add: powr_diff)
  also have "\<dots> = of_int (m * 2 ^ nat (k - ?e))" by (simp only: p of_int_mult)
  finally have "py_round (?r / 2 powr of_int ?e) = m * 2 ^ nat (k - ?e)"
    by (simp only: py_round_of_int)
  then have "b64_nearest ?r = of_int (m * 2 ^ nat (k - ?e)) * 2 powr of_int ?e"
    using r0 by (simp only: b64_nearest_def if_False)
  also have "\<dots> = of_int m * (2 powr of_int (k - ?e) * 2 powr of_int ?e)"
    by (simp only: p of_int_mult mult.assoc)
  also have "2 powr of_int (k - ?e) * 2 powr of_int ?e = (2::real) powr of_int k"
    by (simp flip: powr_add)
  finally show ?thesis .
qed

lemma b64_nearest_int: "\<bar>m\<bar> < 2 ^ 53 \<Longrightarrow> b64_nearest (of_int m) = of_int m"
  using b64_nearest_exact [of m 0] by simp

lemma b64_nearest_half: "\<bar>m\<bar> < 2 ^ 53 \<Longrightarrow> b64_nearest (of_int m / 2) = of_int m / 2"
  using b64_nearest_exact [of m "- 1"] by (simp add: powr_minus_divide)

lemma b64_nearest_nonneg: "0 \<le> r \<Longrightarrow> 0 \<le> b64_nearest r"
proof -
  assume r: "0 \<le> r"
  then have "0 \<le> r / 2 powr of_int (b64_exponent r)" by simp
  from py_round_mono [OF this] have "0 \<le> py_round (r / 2 powr of_int (b64_exponent r))"
    using py_round_of_int [of 0] by simp
  then show ?thesis by (simp add: b64_nearest_def)
qed

lemma b64_exponent_mono:
  assumes "0 < a" "a \<le> b"
  shows "b64_exponent a \<le> b64_exponent b"
proof -
  have "log 2 \<bar>a\<bar> \<le> log 2 \<bar>b\<bar>" using assms by simp
  then have "\<lfloor>log 2 \<bar>a\<bar>\<rfloor> \<le> \<lfloor>log 2 \<bar>b\<bar>\<rfloor>" by (rule floor_mono)
  then show ?thesis by (simp add: b64_exponent_def)
qed

lemma b64_nearest_mono:
  assumes "0 \<le> a" "a \<le> b"
  shows "b64_nearest a \<le> b64_nearest b"
proof (cases "a = 0")
  case True
  with assms b64_nearest_nonneg [of b] show ?thesis by (simp add: b64_nearest_def)
next
  case False
  with assms have a: "0 < a" and b: "0 < b" by simp_all
  let ?ea = "b64_exponent a" and ?eb = "b64_exponent b"
  have le: "?ea \<le> ?eb" using a assms(2) by (rule b64_exponent_mono)
  show ?thesis
  proof (cases "?ea = ?eb")
    case True
    have "a / 2 powr of_int ?ea \<le> b / 2 powr of_int ?ea"
      using assms(2) by (simp add: divide_right_mono)
    from py_round_mono [OF this]
    have "real_of_int (py_round (a / 2 powr of_int ?ea)) * 2 powr of_int ?ea
        \<le> real_of_int (py_round (b / 2 powr of_int ?ea)) * 2 powr of_int ?ea"
      by (intro mult_right_mono) simp_all
    with True a b show ?thesis by (simp add: b64_nearest_def)
  next
    case False
    with le have lt: "?ea < ?eb" by simp
    let ?B = "2 powr of_int (?eb + 52) :: real"
    from lt have big: "- 1074 < ?eb" unfolding b64_exponent_def by linarith
    then have eb: "?eb = \<lfloor>log 2 \<bar>b\<bar>\<rfloor> - 52" unfolding b64_exponent_def by linarith
    have "2 powr of_int \<lfloor>log 2 \<bar>b\<bar>\<rfloor> \<le> \<bar>b\<bar>" using binade [of b] b by simp
    then have Bb: "?B \<le> b" using eb b by simp
    have "?B / 2 powr of_int ?eb = (2::real) powr of_int 52"
      by (simp add: powr_add)
    also have "\<dots> = of_int (2 ^ 52)" by (simp add: pow2_int del: of_int_power)
    finally have Bgrid: "?B / 2 powr of_int ?eb = of_int (2 ^ 52)" .
    have "?B / 2 powr of_int ?eb \<le> b / 2 powr of_int ?eb"
      using Bb by (simp add: divide_right_mono)
    from py_round_mono [OF this] have "2 ^ 52 \<le> py_round (b / 2 powr of_int ?eb)"
      unfolding Bgrid by (simp only: py_round_of_int)
    then have step: "real_of_int (2 ^ 52) * 2 powr of_int ?eb
        \<le> real_of_int (py_round (b / 2 powr of_int ?eb)) * 2 powr of_int ?eb"
      by (intro mult_right_mono) (simp_all del: of_int_power)
    have eqB: "real_of_int (2 ^ 52) * 2 powr of_int ?eb = ?B"
      using Bgrid by (simp add: field_simps)
    have nb: "b64_nearest b = real_of_int (py_round (b / 2 powr of_int ?eb)) * 2 powr of_int ?eb"
      using b by (simp add: b64_nearest_def)
    have lower: "?B \<le> b64_nearest b"
      unfolding nb eqB [symmetric] by (rule step)
    have a1: "a < 2 powr of_int (\<lfloor>log 2 \<bar>a\<bar>\<rfloor> + 1)" using binade [of a] a by simp
    have "\<lfloor>log 2 \<bar>a\<bar>\<rfloor> + 1 \<le> ?ea + 53" unfolding b64_exponent_def by linarith
    with lt have "\<lfloor>log 2 \<bar>a\<bar>\<rfloor> + 1 \<le> ?eb + 52" by linarith
    then have "real_of_int (\<lfloor>log 2 \<bar>a\<bar>\<rfloor> + 1) \<le> real_of_int (?eb + 52)"
      by (simp only: of_int_le_iff)
    then have "(2::real) powr of_int (\<lfloor>log 2 \<bar>a\<bar>\<rfloor> + 1) \<le> ?B"
      by (intro powr_mono) simp_all
    with a1 have aB: "a \<le> ?B" by linarith
    have j: "0 \<le> ?eb + 52 - ?ea" using lt by simp
    have "?B / 2 powr of_int ?ea = (2::real) powr of_int (?eb + 52 - ?ea)"
      by (simp add: powr_diff)
    also have "\<dots> = of_int (2 ^ nat (?eb + 52 - ?ea))" using j by (rule pow2_int)
    finally have Bgrid': "?B / 2 powr of_int ?ea = of_int (2 ^ nat (?eb + 52 - ?ea))" .
    have "a / 2 powr of_int ?ea \<le> ?B / 2 powr of_int ?ea"
      using aB by (simp add: divide_right_mono)
    from py_round_mono [OF this] have "py_round (a / 2 powr of_int ?ea) \<le> 2 ^ nat (?eb + 52 - ?ea)"
      unfolding Bgrid' by (simp only: py_round_of_int)
    then have step': "real_of_int (py_round (a / 2 powr of_int ?ea)) * 2 powr of_int ?ea
        \<le> real_of_int (2 ^ nat (?eb + 52 - ?ea)) * 2 powr of_int ?ea"
      by (intro mult_right_mono) (simp_all del: of_int_power)
    have eqB': "real_of_int (2 ^ nat (?eb + 52 - ?ea)) * 2 powr of_int ?ea = ?B"
      using Bgrid' by (simp add: field_simps)
    have na: "b64_nearest a = real_of_int (py_round (a / 2 powr of_int ?ea)) * 2 powr of_int ?ea"
      using a by (simp add: b64_nearest_def)
    have "b64_nearest a \<le> ?B"
      unfolding na eqB' [symmetric] by (rule step')
    with lower show ?thesis by linarith
  qed
qed

lemma b64_round_exact:
  assumes "\<bar>m\<bar> < 2 ^ 53" "- 1074 \<le> k" "k \<le> 971"
  shows "b64_round (of_int m * 2 powr of_int k) = Some (of_int m * 2 powr of_int k)"
proof -
  have "\<bar>of_int m * 2 powr of_int k\<bar> = real_of_int \<bar>m\<bar> * 2 powr of_int k" by (simp add: abs_mult)
  also have "\<dots> < real_of_int (2 ^ 53) * 2 powr of_int k"
    using assms(1) by (intro mult_strict_right_mono) (simp_all del: of_int_power of_int_abs)
  also have "\<dots> \<le> real_of_int (2 ^ 53) * 2 powr of_int 971"
    using assms(3) by (intro mult_left_mono powr_mono) simp_all
  also have "(2::real) powr of_int 971 = of_int (2 ^ nat 971)" by (rule pow2_int) simp
  also have "real_of_int (2 ^ 53) * real_of_int (2 ^ nat 971) = 2 ^ 1024"
    by (simp add: power_add [symmetric] del: of_int_power)
  finally have "\<bar>of_int m * 2 powr of_int k\<bar> < (2::real) ^ 1024" .
  then show ?thesis
    using b64_nearest_exact [OF assms(1,2)] by (simp add: b64_round_def)
qed

lemma b64_round_int: "\<bar>m\<bar> < 2 ^ 53 \<Longrightarrow> b64_round (of_int m) = Some (of_int m)"
  using b64_round_exact [of m 0] by simp

lemma b64_round_half: "\<bar>m\<bar> < 2 ^ 53 \<Longrightarrow> b64_round (of_int m / 2) = Some (of_int m / 2)"
  using b64_round_exact [of m "- 1"] by (simp add: powr_minus_divide)

lemma b64_round_0 [simp]: "b64_round 0 = Some 0"
  using b64_round_int [of 0] by simp

lemma b64_round_1 [simp]: "b64_round 1 = Some 1"
  using b64_round_int [of 1] by simp

lemma b64_round_numeral:
  "(numeral n :: int) < 2 ^ 53 \<Longrightarrow> b64_round (numeral n) = Some (numeral n)"
  using b64_round_int [of "numeral n"] by simp

lemma b64_round_numeral_half:
  "(numeral n :: int) < 2 ^ 53 \<Longrightarrow> b64_round (numeral n / 2) = Some (numeral n / 2)"
  using b64_round_half [of "numeral n"] by simp

lemma b64_round_one_half [simp]: "b64_round (1 / 2) = Some (1 / 2)"
  using b64_round_half [of 1] by simp

lemma b64_round_between:
  assumes lo: "\<bar>l\<bar> < 2 ^ 53" "0 \<le> l" and hi: "\<bar>h\<bar> < 2 ^ 53"
    and r: "of_int l \<le> r" "r \<le> of_int h"
  shows "\<exists>p. b64_round r = Some p \<and> of_int l \<le> p \<and> p \<le> of_int h"
proof -
  have "b64_nearest (of_int l) \<le> b64_nearest r" using lo(2) r(1) by (intro b64_nearest_mono) simp_all
  moreover have "b64_nearest r \<le> b64_nearest (of_int h)"
    using lo(2) r by (intro b64_nearest_mono) linarith+
  ultimately have b: "of_int l \<le> b64_nearest r" "b64_nearest r \<le> of_int h"
    using b64_nearest_int [OF lo(1)] b64_nearest_int [OF hi] by simp_all
  have "real_of_int h < real_of_int (2 ^ 53)" using hi by (simp del: of_int_power)
  also have "\<dots> < 2 ^ 1024" by simp
  finally have "real_of_int h < 2 ^ 1024" .
  with b lo(2) have "\<bar>b64_nearest r\<bar> < 2 ^ 1024" by simp
  with b show ?thesis by (simp add: b64_round_def)
qed

subsection \<open>Scaling to bytes\<close>

lemma b64_mul_255_unit:
  assumes "0 \<le> c" "c \<le> 1"
  shows "\<exists>p. b64_mul c 255 = Some p \<and> 0 \<le> p \<and> p \<le> 255"
proof -
  have "real_of_int 0 \<le> c * 255" "c * 255 \<le> real_of_int 255" using assms by simp_all
  from b64_round_between [OF _ _ _ this] show ?thesis by (simp add: b64_mul_def)
qed

lemma astype_int_byte:
  assumes "0 \<le> p" "p \<le> 255"
  shows "astype_int (Some p) = \<lfloor>p\<rfloor> \<and> 0 \<le> \<lfloor>p\<rfloor> \<and> \<lfloor>p\<rfloor> \<le> 255"
proof -
  have f: "0 \<le> \<lfloor>p\<rfloor>" "\<lfloor>p\<rfloor> \<le> 255" using assms by (simp_all add: floor_le_iff le_floor_iff)
  then have "- (2 ^ 63) \<le> \<lfloor>p\<rfloor>" "\<lfloor>p\<rfloor> < 2 ^ 63" by simp_all
  with f assms(1) show ?thesis by (simp add: astype_int_def)
qed

lemma byte_value_unit:
  assumes "0 \<le> c" "c \<le> 1"
  shows "\<exists>p. b64_mul c 255 = Some p \<and> 0 \<le> p \<and> p \<le> 255 \<and> astype_int (b64_mul c 255) = \<lfloor>p\<rfloor>
    \<and> 0 \<le> astype_int (b64_mul c 255) \<and> astype_int (b64_mul c 255) \<le> 255"
proof -
  from b64_mul_255_unit [OF assms] obtain p where p: "b64_mul c 255 = Some p" "0 \<le> p" "p \<le> 255"
    by blast
  with astype_int_byte [OF p(2,3)] show ?thesis by simp
qed

lemma byte_values_unit:
  "\<forall>c \<in> set t. 0 \<le> c \<and> c \<le> 1 \<Longrightarrow> \<forall>v \<in> set (byte_values t). 0 \<le> v \<and> v \<le> 255"
  unfolding byte_values_def using byte_value_unit by fastforce

lemma length_byte_values [simp]: "length (byte_values t) = length t"
  by (simp add: byte_values_def)

lemma byte_values_replicate:
  "byte_values (replicate n c) = replicate n (astype_int (b64_mul c 255))"
  by (simp add: byte_values_def)

lemma byte_value_0 [simp]: "astype_int (b64_mul 0 255) = 0"
  by (simp add: b64_mul_def astype_int_def)

lemma byte_value_1 [simp]: "astype_int (b64_mul 1 255) = 255"
  by (simp add: b64_mul_def astype_int_def b64_round_numeral)

lemma byte_value_half [simp]: "astype_int (b64_mul (1 / 2) 255) = 127"
  by (simp add: b64_mul_def astype_int_def b64_round_numeral_half)

lemma byte_value_2 [simp]: "astype_int (b64_mul 2 255) = 510"
  by (simp add: b64_mul_def astype_int_def b64_round_numeral)

subsection \<open>Prefixes of the corpus\<close>

lemma take_count_unit:
  assumes "0 \<le> ti" "ti \<le> 1" "length c < 2 ^ 53"
  shows "\<exists>k. take_count c ti = Inr k \<and> 0 \<le> k \<and> k \<le> int (length c)"
proof -
  let ?n = "int (length c)"
  have n: "\<bar>?n\<bar> < 2 ^ 53" using assms(3) by simp
  have "real_of_int 0 \<le> of_nat (length c) * ti" "of_nat (length c) * ti \<le> real_of_int ?n"
    using assms(1,2) by (simp_all add: mult_left_le)
  from b64_round_between [OF _ _ n this] obtain p where
    p: "b64_mul (of_nat (length c)) ti = Some p" "0 \<le> p" "p \<le> real_of_int ?n"
    by (auto simp: b64_mul_def)
  from py_round_mono [OF p(2)] py_round_mono [OF p(3)]
  have "0 \<le> py_round p" "py_round p \<le> ?n"
    using py_round_of_int [of 0] by (simp_all only: py_round_of_int of_int_0)
  with p(1) show ?thesis by (simp add: take_count_def)
qed

lemma take_count_mono:
  assumes "0 \<le> a" "a \<le> b" "take_count c a = Inr ka" "take_count c b = Inr kb"
  shows "ka \<le> kb"
proof -
  from assms(3) obtain pa where pa: "b64_round (of_nat (length c) * a) = Some pa" "ka = py_round pa"
    by (auto simp: take_count_def b64_mul_def split: option.splits)
  from assms(4) obtain pb where pb: "b64_round (of_nat (length c) * b) = Some pb" "kb = py_round pb"
    by (auto simp: take_count_def b64_mul_def split: option.splits)
  have "b64_nearest (of_nat (length c) * a) \<le> b64_nearest (of_nat (length c) * b)"
    using assms(1,2) by (intro b64_nearest_mono mult_left_mono) simp_all
  moreover have "pa = b64_nearest (of_nat (length c) * a)" "pb = b64_nearest (of_nat (length c) * b)"
    using pa(1) pb(1) by (auto simp: b64_round_def split: if_splits)
  ultimately have "pa \<le> pb" by simp
  then show ?thesis unfolding pa(2) pb(2) by (rule py_round_mono)
qed

lemma content_to_append_unit:
  assumes "0 \<le> ti" "ti \<le> 1" "length c < 2 ^ 53"
  shows "\<exists>k. take_count c ti = Inr k \<and> 0 \<le> k \<and> k \<le> int (length c)
    \<and> content_to_append c ti = Inr (take (nat k) c) \<and> int (length (take (nat k) c)) = k"
proof -
  from take_count_unit [OF assms] obtain k where k: "take_count c ti = Inr k" "0 \<le> k"
    "k \<le> int (length c)" by blast
  then have "int (length (take (nat k) c)) = k" by (auto simp: min_def)
  with k show ?thesis by (simp add: content_to_append_def slice_to_def del: length_take)
qed

lemma set_slice_to: "set (slice_to k xs) \<subseteq> set xs"
  by (auto simp: slice_to_def dest: in_set_takeD)

lemma content_to_append_subset: "content_to_append c ti = Inr cs \<Longrightarrow> set cs \<subseteq> set c"
  using set_slice_to [of _ c] by (auto simp: content_to_append_def split: sum.splits)

lemma int_sum_list: "int (sum_list ns) = sum_list (map int ns)"
  by (induction ns) simp_all

lemma b64_nearest_binade:
  assumes "2 powr of_int E \<le> \<bar>r\<bar>" "\<bar>r\<bar> < 2 powr of_int (E + 1)" "- 1022 \<le> E"
  shows "b64_nearest r = of_int (py_round (r / 2 powr of_int (E - 52))) * 2 powr of_int (E - 52)"
proof -
  have "(0::real) < 2 powr of_int E" by simp
  with assms(1) have "r \<noteq> 0" by auto
  moreover have "b64_exponent r = E - 52"
    using b64_exponent_eq [OF assms(1,2)] assms(3) by simp
  ultimately show ?thesis by (simp add: b64_nearest_def)
qed

text \<open>
  Two values that the exact product would give otherwise. The double nearest to \<open>1/255\<close> is
  \<open>282578800148737 / 2\<^sup>5\<^sup>6\<close>; its exact product with 255 is below 1, its binary64 product is
  1, and the byte is 1. The double nearest to \<open>1/10\<close> is \<open>3602879701896397 / 2\<^sup>5\<^sup>5\<close>; its exact
  product with 5 is above \<open>1/2\<close>, its binary64 product is \<open>1/2\<close>, and no byte of a content of
  five is taken.
\<close>

lemma binary64_scaling_example:
  "byte_values [282578800148737 / 2 ^ 56] = [1] \<and> \<lfloor>282578800148737 / 2 ^ 56 * 255 :: real\<rfloor> = 0"
proof -
  let ?r = "282578800148737 / 2 ^ 56 * 255 :: real"
  have "b64_nearest ?r = of_int (py_round (?r / 2 powr of_int (- 1 - 52))) * 2 powr of_int (- 1 - 52)"
    by (rule b64_nearest_binade) (simp_all add: powr_minus_divide)
  also have "\<dots> = 1" by (simp add: powr_minus_divide py_round_def)
  finally have "b64_mul (282578800148737 / 2 ^ 56) 255 = Some 1"
    by (simp add: b64_mul_def b64_round_def)
  then show ?thesis by (simp add: byte_values_def astype_int_def)
qed

lemma binary64_prefix_example:
  "take_count [1, 2, 3, 4, 5] (3602879701896397 / 2 ^ 55) = Inr 0
   \<and> py_round (5 * (3602879701896397 / 2 ^ 55)) = 1"
proof -
  let ?r = "5 * (3602879701896397 / 2 ^ 55) :: real"
  have "b64_nearest ?r = of_int (py_round (?r / 2 powr of_int (- 1 - 52))) * 2 powr of_int (- 1 - 52)"
    by (rule b64_nearest_binade) (simp_all add: powr_minus_divide)
  also have "\<dots> = 1 / 2" by (simp add: powr_minus_divide py_round_def)
  finally have "b64_mul 5 (3602879701896397 / 2 ^ 55) = Some (1 / 2)"
    by (simp add: b64_mul_def b64_round_def)
  then show ?thesis by (simp add: take_count_def py_round_def)
qed

subsection \<open>The appending loop\<close>

lemma gamma_append_eq:
  "\<forall>i \<in> set idx. i < length (section_population self)
       \<and> (\<exists>cs. content_to_append (section_population self ! i) (t ! i) = Inr cs) \<Longrightarrow>
   gamma_append self t idx x =
     Inr (x @ concat (map (\<lambda>i. projr (content_to_append (section_population self ! i) (t ! i))) idx))"
  by (induction idx arbitrary: x) auto

lemma gamma_append_subset:
  "gamma_append self t idx x = Inr y \<Longrightarrow> set y \<subseteq> set x \<union> \<Union> (set ` set (section_population self))"
proof (induction idx arbitrary: x)
  case Nil
  then show ?case by auto
next
  case (Cons i rest)
  from Cons.prems have i: "i < length (section_population self)"
    by (auto split: if_splits)
  with Cons.prems obtain cs where cs: "content_to_append (section_population self ! i) (t ! i) = Inr cs"
    and rec: "gamma_append self t rest (x @ cs) = Inr y"
    by (cases "content_to_append (section_population self ! i) (t ! i)") auto
  have "set cs \<subseteq> set (section_population self ! i)" using cs by (rule content_to_append_subset)
  moreover have "section_population self ! i \<in> set (section_population self)" using i by simp
  ultimately have "set cs \<subseteq> \<Union> (set ` set (section_population self))" by blast
  with Cons.IH [OF rec] show ?case by auto
qed

lemma map_nth2_upt:
  "length xs = length ys \<Longrightarrow> map (\<lambda>i. f (xs ! i) (ys ! i)) [0..<length ys] = map2 f xs ys"
  by (rule nth_equalityI) simp_all

subsection \<open>The overwriting loop and the header pointer\<close>

lemma header_overwrite_frame:
  "header_overwrite bv i idx x = Inr y \<Longrightarrow>
   length y = length x \<and> (\<forall>j < length x. j \<notin> set idx \<longrightarrow> y ! j = x ! j) \<and> set y \<subseteq> set x \<union> set bv"
proof (induction idx arbitrary: i x)
  case Nil
  then show ?case by simp
next
  case (Cons index rest)
  from Cons.prems have ok: "i < length bv" "index < length x"
    and rec: "header_overwrite bv (Suc i) rest (x[index := bv ! i]) = Inr y"
    by (auto split: if_splits)
  from Cons.IH [OF rec] have ih: "length y = length x"
    "\<forall>j < length x. j \<notin> set rest \<longrightarrow> y ! j = (x[index := bv ! i]) ! j"
    "set y \<subseteq> set (x[index := bv ! i]) \<union> set bv" by simp_all
  have "set (x[index := bv ! i]) \<subseteq> insert (bv ! i) (set x)" by (rule set_update_subset_insert)
  moreover have "bv ! i \<in> set bv" using ok by simp
  ultimately have "set y \<subseteq> set x \<union> set bv" using ih(3) by blast
  with ih show ?case by auto
qed

lemma header_overwrite_succeeds:
  "i + length idx \<le> length bv \<Longrightarrow> \<forall>j \<in> set idx. j < length x \<Longrightarrow>
   \<exists>y. header_overwrite bv i idx x = Inr y"
  by (induction idx arbitrary: i x) simp_all

lemma header_overwrite_out_of_range:
  "\<exists>j \<in> set idx. length x \<le> j \<Longrightarrow> header_overwrite bv i idx x = Inl IndexError"
proof (induction idx arbitrary: i x)
  case Nil
  then show ?case by simp
next
  case (Cons index rest)
  show ?case
  proof (cases "length bv \<le> i \<or> length x \<le> index")
    case True
    then show ?thesis by auto
  next
    case False
    with Cons.prems have "\<exists>j \<in> set rest. length (x[index := bv ! i]) \<le> j" by auto
    from Cons.IH [OF this] False show ?thesis by simp
  qed
qed

lemma read_pe_index_ok:
  assumes "64 \<le> length x" "\<forall>v \<in> set (take 4 (drop 60 x)). 0 \<le> v \<and> v \<le> 255"
  shows "read_pe_index x =
           Inr (nat (x ! 60 + 256 * (x ! 61) + 65536 * (x ! 62) + 16777216 * (x ! 63)))"
proof -
  have "length (take 4 (drop 60 x)) = 4" using assms(1) by simp
  moreover have "\<not> (\<exists>v \<in> set (take 4 (drop 60 x)). v < 0 \<or> 255 < v)" using assms(2) by auto
  moreover have "unpack_le32 (take 4 (drop 60 x)) =
      nat (x ! 60 + 256 * (x ! 61) + 65536 * (x ! 62) + 16777216 * (x ! 63))"
    using assms(1) by (simp add: unpack_le32_def)
  ultimately show ?thesis unfolding read_pe_index_def Let_def by simp
qed


lemma header_overwrite_in_range:
  "header_overwrite bv i idx x = Inr y \<Longrightarrow> \<forall>j \<in> set idx. j < length x"
  using header_overwrite_out_of_range [of idx x bv i] by fastforce

lemma header_set_indexes_ok:
  assumes "optimize_all_dos self" "64 \<le> length x"
    "\<forall>v \<in> set (take 4 (drop 60 x)). 0 \<le> v \<and> v \<le> 255"
  shows "header_set_indexes self x =
    (Inr (), self\<lparr>indexes_to_perturb :=
                     [2..<60] @ [64..<nat (x ! 60 + 256 * (x ! 61) + 65536 * (x ! 62) + 16777216 * (x ! 63))],
                  latent_space_size :=
                     58 + (nat (x ! 60 + 256 * (x ! 61) + 65536 * (x ! 62) + 16777216 * (x ! 63)) - 64)\<rparr>)"
  using assms(1) read_pe_index_ok [OF assms(2,3)]
  by (simp add: header_set_indexes_def Let_def)

lemma header_set_indexes_base:
  "\<not> optimize_all_dos self \<Longrightarrow>
   header_set_indexes self x = (Inr (), self\<lparr>indexes_to_perturb := [2..<60], latent_space_size := 58\<rparr>)"
  by (simp add: header_set_indexes_def Let_def)

lemma header_set_indexes_magic:
  "0 \<notin> set (indexes_to_perturb (snd (header_set_indexes self x)))
   \<and> Suc 0 \<notin> set (indexes_to_perturb (snd (header_set_indexes self x)))
   \<and> 2 \<in> set (indexes_to_perturb (snd (header_set_indexes self x)))"
  by (auto simp: header_set_indexes_def Let_def split: sum.splits)

subsection \<open>The injection loop\<close>

lemma random_choice_letter: "fst (random_choice ascii_letters g) \<in> set ascii_letters"
proof -
  have "length ascii_letters = 52" by (simp add: ascii_letters_def)
  then have "g 0 mod length ascii_letters < length ascii_letters" by simp
  then show ?thesis unfolding random_choice_def fst_conv by (rule nth_mem)
qed

lemma random_letters_spec:
  "random_letters k g = (s, g') \<Longrightarrow> length s = k \<and> set s \<subseteq> set ascii_letters"
proof (induction k arbitrary: g s g')
  case 0
  then show ?case by simp
next
  case (Suc k)
  obtain c g1 where c: "random_choice ascii_letters g = (c, g1)" by (cases "random_choice ascii_letters g")
  obtain cs g2 where cs: "random_letters k g1 = (cs, g2)" by (cases "random_letters k g1")
  from Suc.prems c cs have s: "s = c # cs" by simp
  from random_choice_letter [of g] c have "c \<in> set ascii_letters" by simp
  with Suc.IH [OF cs] s show ?case by simp
qed

lemma random_letters_numeral:
  "random_letters (numeral n) g =
     (let (c, g1) = random_choice ascii_letters g;
          (cs, g2) = random_letters (pred_numeral n) g1
      in (c # cs, g2))"
  by (simp add: numeral_eq_Suc)

lemma random_letters_1:
  "random_letters 1 g = (let (c, g1) = random_choice ascii_letters g in ([c], g1))"
  by (simp add: One_nat_def [symmetric] del: One_nat_def) (simp add: random_letters.simps(2) [of 0, simplified])

lemma inject_sections_flag:
  "inject_sections L (self\<lparr>random_names := flag\<rparr>) t idx lief_adv names g =
   inject_sections L self t idx lief_adv names g"
  by (induction idx arbitrary: lief_adv names g)
     (simp_all split: option.splits prod.splits sum.splits)

lemma inject_sections_best:
  assumes "self_best_names self \<noteq> []"
    and "inject_sections L self t idx lief_adv names g = (Inr (lief', names'), g')"
  shows "g' = g
    \<and> names' = names @ map (\<lambda>i. self_best_names self ! i) idx
    \<and> lief' = map_option (\<lambda>b. foldl (add_section L) b
          (map (\<lambda>i. \<lparr>name = self_best_names self ! i,
                     content = projr (content_to_append (section_population self ! i) (t ! i))\<rparr>) idx))
          lief_adv
    \<and> (\<forall>i \<in> set idx. i < length (section_population self) \<and> i < length t
          \<and> i < length (self_best_names self)
          \<and> (\<exists>cs. content_to_append (section_population self ! i) (t ! i) = Inr cs))
    \<and> (idx \<noteq> [] \<longrightarrow> lief_adv \<noteq> None)"
  using assms(2)
proof (induction idx arbitrary: lief_adv names)
  case Nil
  then show ?case by (simp add: option.map_ident)
next
  case (Cons i rest)
  from Cons.prems have bounds: "i < length (section_population self)" "i < length t"
    by (auto split: if_splits)
  with Cons.prems obtain cs where cs: "content_to_append (section_population self ! i) (t ! i) = Inr cs"
    by (cases "content_to_append (section_population self ! i) (t ! i)") auto
  from Cons.prems assms(1) bounds cs have best: "i < length (self_best_names self)"
    by (auto split: if_splits)
  from Cons.prems assms(1) bounds cs best obtain b where b: "lief_adv = Some b"
    by (cases lief_adv) (auto simp: Let_def)
  let ?s = "\<lparr>name = self_best_names self ! i, content = cs\<rparr>"
  from Cons.prems assms(1) bounds cs best b
  have rec: "inject_sections L self t rest (Some (add_section L b ?s))
      (names @ [self_best_names self ! i]) g = (Inr (lief', names'), g')"
    by (simp add: Let_def)
  from Cons.IH [OF rec] bounds cs best b show ?case by simp
qed

lemma inject_sections_random:
  assumes "self_best_names self = []"
    and "inject_sections L self t idx lief_adv names g = (Inr (lief', names'), g')"
  shows "\<exists>ns. length ns = length idx
    \<and> (\<forall>n \<in> set ns. length n = 8 \<and> set n \<subseteq> set ascii_letters)
    \<and> names' = names @ ns
    \<and> lief' = map_option (\<lambda>b. foldl (add_section L) b
          (map2 (\<lambda>n i. \<lparr>name = n,
                     content = projr (content_to_append (section_population self ! i) (t ! i))\<rparr>) ns idx))
          lief_adv
    \<and> (\<forall>i \<in> set idx. i < length (section_population self) \<and> i < length t
          \<and> (\<exists>cs. content_to_append (section_population self ! i) (t ! i) = Inr cs))
    \<and> (idx \<noteq> [] \<longrightarrow> lief_adv \<noteq> None)"
  using assms(2)
proof (induction idx arbitrary: lief_adv names g)
  case Nil
  then show ?case by (simp add: option.map_ident)
next
  case (Cons i rest)
  from Cons.prems have bounds: "i < length (section_population self)" "i < length t"
    by (auto split: if_splits)
  with Cons.prems obtain cs where cs: "content_to_append (section_population self ! i) (t ! i) = Inr cs"
    by (cases "content_to_append (section_population self ! i) (t ! i)") auto
  obtain n g1 where n: "random_letters 8 g = (n, g1)" by (cases "random_letters 8 g")
  from Cons.prems assms(1) bounds cs n obtain b where b: "lief_adv = Some b"
    by (cases lief_adv) (auto simp: Let_def)
  let ?s = "\<lparr>name = n, content = cs\<rparr>"
  from Cons.prems assms(1) bounds cs b n
  have rec: "inject_sections L self t rest (Some (add_section L b ?s)) (names @ [n]) g1
      = (Inr (lief', names'), g')"
    by (simp add: Let_def)
  from Cons.IH [OF rec] obtain ns where ns: "length ns = length rest"
    "\<forall>m \<in> set ns. length m = 8 \<and> set m \<subseteq> set ascii_letters"
    "names' = (names @ [n]) @ ns"
    "lief' = map_option (\<lambda>b. foldl (add_section L) b
          (map2 (\<lambda>n i. \<lparr>name = n,
                     content = projr (content_to_append (section_population self ! i) (t ! i))\<rparr>) ns rest))
          (Some (add_section L b ?s))"
    "\<forall>i \<in> set rest. i < length (section_population self) \<and> i < length t
          \<and> (\<exists>cs. content_to_append (section_population self ! i) (t ! i) = Inr cs)"
    by blast
  from random_letters_spec [OF n] have "length n = 8 \<and> set n \<subseteq> set ascii_letters" .
  with ns bounds cs b show ?case
    by (intro exI [of _ "n # ns"]) simp
qed

lemma argmin_from_first:
  assumes "xs = pre @ vs" "length pre = j" "k < j" "best = xs ! k"
    "\<forall>i < j. best \<le> xs ! i" "\<forall>i < k. best < xs ! i"
  shows "argmin_from best k j vs < length xs
    \<and> (\<forall>i < length xs. xs ! argmin_from best k j vs \<le> xs ! i)
    \<and> (\<forall>i < argmin_from best k j vs. xs ! argmin_from best k j vs < xs ! i)"
  using assms
proof (induction vs arbitrary: best k j pre)
  case Nil
  then show ?case by simp
next
  case (Cons v vs)
  have xsj: "xs ! j = v" using Cons.prems(1,2) by (simp add: nth_append)
  have split: "xs = (pre @ [v]) @ vs" "length (pre @ [v]) = Suc j" using Cons.prems(1,2) by simp_all
  show ?case
  proof (cases "v < best")
    case True
    have "\<forall>i < Suc j. v \<le> xs ! i"
      using True Cons.prems(5) xsj by (auto simp: less_Suc_eq)
    moreover have "\<forall>i < j. v < xs ! i" using True Cons.prems(5) by fastforce
    ultimately have "argmin_from v j (Suc j) vs < length xs
      \<and> (\<forall>i < length xs. xs ! argmin_from v j (Suc j) vs \<le> xs ! i)
      \<and> (\<forall>i < argmin_from v j (Suc j) vs. xs ! argmin_from v j (Suc j) vs < xs ! i)"
      using xsj by (intro Cons.IH [OF split]) simp_all
    with True show ?thesis by simp
  next
    case False
    have "\<forall>i < Suc j. best \<le> xs ! i"
      using False Cons.prems(5) xsj by (auto simp: less_Suc_eq)
    then have "argmin_from best k (Suc j) vs < length xs
      \<and> (\<forall>i < length xs. xs ! argmin_from best k (Suc j) vs \<le> xs ! i)
      \<and> (\<forall>i < argmin_from best k (Suc j) vs. xs ! argmin_from best k (Suc j) vs < xs ! i)"
      using Cons.prems(3,4,6) by (intro Cons.IH [OF split]) simp_all
    with False show ?thesis by simp
  qed
qed

lemma argmin_first:
  assumes "argmin xs = Inr r"
  shows "r < length xs \<and> (\<forall>i < length xs. xs ! r \<le> xs ! i) \<and> (\<forall>i < r. xs ! r < xs ! i)"
proof (cases xs)
  case Nil
  with assms show ?thesis by (simp add: argmin_def)
next
  case (Cons v rest)
  with assms have r: "r = argmin_from v 0 1 rest" by (simp add: argmin_def)
  have "argmin_from v 0 1 rest < length xs
    \<and> (\<forall>i < length xs. xs ! argmin_from v 0 1 rest \<le> xs ! i)
    \<and> (\<forall>i < argmin_from v 0 1 rest. xs ! argmin_from v 0 1 rest < xs ! i)"
    by (rule argmin_from_first [where pre = "[v]"]) (simp_all add: Cons)
  with r show ?thesis by simp
qed

lemma map_nth_upt_take: "n \<le> length xs \<Longrightarrow> map (\<lambda>i. xs ! i) [0..<n] = take n xs"
  by (rule nth_equalityI) simp_all

lemma map2_names_upt:
  "n \<le> length xs \<Longrightarrow> map (\<lambda>i. f (xs ! i) i) [0..<n] = map2 f (take n xs) [0..<n]"
  by (rule nth_equalityI) simp_all

lemma Inr_projr: "\<exists>c. s = Inr c \<Longrightarrow> s = Inr (projr s)"
  by auto

lemma map2_contents_upt:
  "length ns = n \<Longrightarrow>
   map2 (\<lambda>m i. \<lparr>name = m, content = f i\<rparr>) ns [0..<n]
     = map2 (\<lambda>m c. \<lparr>name = m, content = c\<rparr>) ns (map f [0..<n])"
  by (rule nth_equalityI) simp_all

lemma sections_apply_result:
  assumes "sections_apply_feasible_manipulations L self g t x = (Inr y, self', g')"
  shows "\<exists>ns cs b0. parse L x = Some b0
     \<and> self' = self\<lparr>self_names := self_names self @ [ns]\<rparr>
     \<and> length ns = latent_space_size self
     \<and> length cs = latent_space_size self
     \<and> (\<forall>i < latent_space_size self. i < length (section_population self) \<and> i < length t
           \<and> content_to_append (section_population self ! i) (t ! i) = Inr (cs ! i))
     \<and> y = build L (foldl (add_section L) b0 (map2 (\<lambda>n c. \<lparr>name = n, content = c\<rparr>) ns cs))
     \<and> (self_best_names self \<noteq> [] \<longrightarrow>
           ns = take (latent_space_size self) (self_best_names self) \<and> g' = g)
     \<and> (self_best_names self = [] \<longrightarrow>
           (\<forall>n \<in> set ns. length n = 8 \<and> set n \<subseteq> set ascii_letters))"
proof -
  let ?d = "latent_space_size self"
  let ?c = "\<lambda>i. projr (content_to_append (section_population self ! i) (t ! i))"
  let ?mk = "\<lambda>n i. \<lparr>name = n, content = ?c i\<rparr>"
  let ?cs = "map ?c [0..<?d]"
  obtain r g1 where loop: "inject_sections L self t [0..<?d] (parse L x) [] g = (r, g1)"
    by (cases "inject_sections L self t [0..<?d] (parse L x) [] g")
  from assms loop obtain lief' names' where r: "r = Inr (lief', names')"
    by (cases r) (auto simp: sections_apply_feasible_manipulations_def)
  from assms loop r obtain b' where b': "lief' = Some b'"
    by (cases lief') (auto simp: sections_apply_feasible_manipulations_def Let_def)
  from assms loop r b' have out: "y = build L b'" "self' = self\<lparr>self_names := self_names self @ [names']\<rparr>"
    "g' = g1"
    by (simp_all add: sections_apply_feasible_manipulations_def Let_def)
  have contents: "\<forall>i < ?d. i < length (section_population self) \<and> i < length t
           \<and> content_to_append (section_population self ! i) (t ! i) = Inr (?cs ! i)"
    if "\<forall>i \<in> set [0..<?d]. i < length (section_population self) \<and> i < length t
          \<and> (\<exists>cs. content_to_append (section_population self ! i) (t ! i) = Inr cs)"
    using that by (auto intro: Inr_projr)
  show ?thesis
  proof (cases "self_best_names self = []")
    case True
    from inject_sections_random [OF True loop [unfolded r]] obtain ns where ns:
      "length ns = ?d" "\<forall>n \<in> set ns. length n = 8 \<and> set n \<subseteq> set ascii_letters" "names' = ns"
      "lief' = map_option (\<lambda>b. foldl (add_section L) b (map2 ?mk ns [0..<?d])) (parse L x)"
      "\<forall>i \<in> set [0..<?d]. i < length (section_population self) \<and> i < length t
          \<and> (\<exists>cs. content_to_append (section_population self ! i) (t ! i) = Inr cs)"
      by auto
    from ns(4) b' obtain b0 where b0: "parse L x = Some b0"
      "b' = foldl (add_section L) b0 (map2 ?mk ns [0..<?d])"
      by (cases "parse L x") auto
    have "map2 ?mk ns [0..<?d] = map2 (\<lambda>n c. \<lparr>name = n, content = c\<rparr>) ns ?cs"
      using ns(1) by (rule map2_contents_upt)
    with b0 have y: "y = build L (foldl (add_section L) b0
        (map2 (\<lambda>n c. \<lparr>name = n, content = c\<rparr>) ns ?cs))"
      using out(1) by simp
    from contents [OF ns(5)] ns(1,2,3) out(2) b0(1) y True show ?thesis
      by (intro exI [of _ ns] exI [of _ ?cs] exI [of _ b0]) simp
  next
    case False
    let ?ns = "take ?d (self_best_names self)"
    from inject_sections_best [OF False loop [unfolded r]]
    have bs: "g1 = g" "names' = map (\<lambda>i. self_best_names self ! i) [0..<?d]"
      "lief' = map_option (\<lambda>b. foldl (add_section L) b
          (map (\<lambda>i. ?mk (self_best_names self ! i) i) [0..<?d])) (parse L x)"
      "\<forall>i \<in> set [0..<?d]. i < length (section_population self) \<and> i < length t
          \<and> i < length (self_best_names self)
          \<and> (\<exists>cs. content_to_append (section_population self ! i) (t ! i) = Inr cs)"
      by simp_all
    have le: "?d \<le> length (self_best_names self)"
    proof (cases "?d")
      case 0
      then show ?thesis by simp
    next
      case (Suc m)
      with bs(4) have "m < length (self_best_names self)" by simp
      with Suc show ?thesis by simp
    qed
    have names: "names' = ?ns" using bs(2) le by (simp add: map_nth_upt_take)
    have len: "length ?ns = ?d" using le by simp
    have "map (\<lambda>i. ?mk (self_best_names self ! i) i) [0..<?d] = map2 ?mk ?ns [0..<?d]"
      using le by (rule map2_names_upt)
    also have "\<dots> = map2 (\<lambda>n c. \<lparr>name = n, content = c\<rparr>) ?ns ?cs"
      using len by (rule map2_contents_upt)
    finally have secs: "map (\<lambda>i. ?mk (self_best_names self ! i) i) [0..<?d]
        = map2 (\<lambda>n c. \<lparr>name = n, content = c\<rparr>) ?ns ?cs" .
    from bs(3) b' obtain b0 where b0: "parse L x = Some b0"
      "b' = foldl (add_section L) b0 (map (\<lambda>i. ?mk (self_best_names self ! i) i) [0..<?d])"
      by (cases "parse L x") auto
    from b0(2) secs out(1) have y: "y = build L (foldl (add_section L) b0
        (map2 (\<lambda>n c. \<lparr>name = n, content = c\<rparr>) ?ns ?cs))"
      by simp
    have c: "\<forall>i < ?d. i < length (section_population self) \<and> i < length t
           \<and> content_to_append (section_population self ! i) (t ! i) = Inr (?cs ! i)"
      using bs(4) by (intro contents) simp
    from c names len out(2,3) bs(1) b0(1) y False show ?thesis
      by (intro exI [of _ ?ns] exI [of _ ?cs] exI [of _ b0]) simp
  qed
qed

lemma header_decode_example:
  "header_apply_feasible_manipulations (CBlackBoxHeaderEvasionProblem False 256)
       (replicate 58 (1 / 2)) (replicate 64 7)
     = Inr ([7, 7] @ replicate 58 127 @ [7, 7, 7, 7])"
proof -
  have bv: "byte_values (replicate 58 (1 / 2)) = replicate 58 127"
    by (simp add: byte_values_replicate)
  show ?thesis
    unfolding header_apply_feasible_manipulations_def bv
    by (simp add: CBlackBoxHeaderEvasionProblem_def upt_rec_numeral eval_nat_numeral)
qed

section \<open>The claims\<close>

subsection \<open>Padding\<close>

text \<open>
  C6. For every latent vector with components in \<open>[0, 1]\<close> and every original, the padding
  decoder returns the original followed by one byte per component: the floor of the
  binary64 product of the component with 255, a product that lies in \<open>[0, 255]\<close>. With a
  budget of 10 bytes, the all-zero vector appends ten bytes 0 and the all-one vector appends
  ten bytes 255.
\<close>

theorem padding_decode:
  assumes "\<forall>c \<in> set t. 0 \<le> c \<and> c \<le> 1"
  shows "(\<exists>ps. length ps = length t
            \<and> (\<forall>i < length t. b64_mul (t ! i) 255 = Some (ps ! i) \<and> 0 \<le> ps ! i \<and> ps ! i \<le> 255)
            \<and> padding_apply_feasible_manipulations t x = x @ map floor ps)
    \<and> padding_apply_feasible_manipulations
         (replicate (latent_space_size (CBlackBoxPaddingEvasionProblem 10 invalid)) 0) x
       = x @ replicate 10 0
    \<and> padding_apply_feasible_manipulations
         (replicate (latent_space_size (CBlackBoxPaddingEvasionProblem 10 invalid)) 1) x
       = x @ replicate 10 255"
proof -
  let ?ps = "map (\<lambda>c. the (b64_mul c 255)) t"
  have each: "b64_mul (t ! i) 255 = Some (?ps ! i) \<and> 0 \<le> ?ps ! i \<and> ?ps ! i \<le> 255
      \<and> astype_int (b64_mul (t ! i) 255) = \<lfloor>?ps ! i\<rfloor>" if "i < length t" for i
  proof -
    from that assms have "0 \<le> t ! i" "t ! i \<le> 1" by simp_all
    from byte_value_unit [OF this] that show ?thesis by auto
  qed
  have fl: "astype_int (b64_mul (t ! i) 255) = \<lfloor>the (b64_mul (t ! i) 255)\<rfloor>" if "i < length t" for i
    using each [OF that] that by simp
  have "byte_values t = map floor ?ps"
    by (rule nth_equalityI) (simp_all add: byte_values_def fl)
  then have "padding_apply_feasible_manipulations t x = x @ map floor ?ps"
    by (simp add: padding_apply_feasible_manipulations_def)
  moreover have "\<forall>i < length t. b64_mul (t ! i) 255 = Some (?ps ! i) \<and> 0 \<le> ?ps ! i \<and> ?ps ! i \<le> 255"
    using each by blast
  ultimately have first: "\<exists>ps. length ps = length t
            \<and> (\<forall>i < length t. b64_mul (t ! i) 255 = Some (ps ! i) \<and> 0 \<le> ps ! i \<and> ps ! i \<le> 255)
            \<and> padding_apply_feasible_manipulations t x = x @ map floor ps"
    by (intro exI [of _ ?ps] conjI) (simp_all only: length_map)
  have "byte_values (replicate 10 0) = replicate 10 0"
    "byte_values (replicate 10 1) = replicate 10 255"
    by (simp_all add: byte_values_replicate)
  with first show ?thesis
    by (simp add: padding_apply_feasible_manipulations_def CBlackBoxPaddingEvasionProblem_def)
qed

theorem padding_decode_witness:
  "set [1 / 2, 1 :: real] \<subseteq> {0..1}
   \<and> padding_apply_feasible_manipulations [1 / 2, 1] [77, 90] = [77, 90, 127, 255]
   \<and> padding_apply_feasible_manipulations (replicate 10 0) [77, 90] = [77, 90] @ replicate 10 0"
  using padding_decode [of "[1 / 2, 1]" "[77, 90]" 256]
  by (simp add: padding_apply_feasible_manipulations_def byte_values_def)

subsection \<open>Raw append\<close>

text \<open>
  C5. Let \<open>t\<close> have one component per corpus entry, all in \<open>[0, 1]\<close>, and let every content
  be shorter than \<open>2\<^sup>5\<^sup>3\<close> bytes. Then every \<open>take_count content\<^sub>i t\<^sub>i\<close> is defined: it is the
  rounding of the binary64 product of the length with the component, and lies between 0
  and the length. The raw-append decoder returns the original followed, entry by entry, by
  the first \<open>take_count content\<^sub>i t\<^sub>i\<close> bytes of each content, so the size of the result is the
  size of the original plus the sum of these counts. A count does not decrease when its
  component grows from a non-negative value.
\<close>

theorem gamma_raw_append:
  assumes len: "length t = length (section_population self)"
    and unit: "\<forall>c \<in> set t. 0 \<le> c \<and> c \<le> 1"
    and short: "\<forall>content \<in> set (section_population self). length content < 2 ^ 53"
  shows "(\<exists>ks. length ks = length t
            \<and> (\<forall>i < length t. take_count (section_population self ! i) (t ! i) = Inr (ks ! i)
                  \<and> 0 \<le> ks ! i \<and> ks ! i \<le> int (length (section_population self ! i)))
            \<and> gamma_apply_feasible_manipulations self t x =
                 Inr (x @ concat (map2 (\<lambda>content k. take (nat k) content) (section_population self) ks))
            \<and> (\<forall>y. gamma_apply_feasible_manipulations self t x = Inr y \<longrightarrow>
                  int (length y) = int (length x) + sum_list ks))
         \<and> (\<forall>content a b ka kb. 0 \<le> a \<and> a \<le> b \<and> take_count content a = Inr ka
                \<and> take_count content b = Inr kb \<longrightarrow> ka \<le> kb)"
proof -
  let ?pop = "section_population self"
  let ?k = "\<lambda>i. projr (take_count (?pop ! i) (t ! i))"
  let ?ks = "map ?k [0..<length t]"
  have each: "take_count (?pop ! i) (t ! i) = Inr (?k i) \<and> 0 \<le> ?k i \<and> ?k i \<le> int (length (?pop ! i))
      \<and> content_to_append (?pop ! i) (t ! i) = Inr (take (nat (?k i)) (?pop ! i))
      \<and> int (length (take (nat (?k i)) (?pop ! i))) = ?k i" if i: "i < length t" for i
  proof -
    from i unit have ti: "0 \<le> t ! i" "t ! i \<le> 1" by simp_all
    from i len short have "length (?pop ! i) < 2 ^ 53" by simp
    from content_to_append_unit [OF ti this] obtain k where
      k: "take_count (?pop ! i) (t ! i) = Inr k" "0 \<le> k" "k \<le> int (length (?pop ! i))"
        "content_to_append (?pop ! i) (t ! i) = Inr (take (nat k) (?pop ! i))"
        "int (length (take (nat k) (?pop ! i))) = k"
      by blast
    from k(1) have kk: "?k i = k" by simp
    show ?thesis unfolding kk using k by blast
  qed
  have cta: "projr (content_to_append (?pop ! i) (t ! i)) = take (nat (?k i)) (?pop ! i)"
    if "i < length t" for i
    using each [OF that] by simp
  have lenk: "int (length (take (nat (?k i)) (?pop ! i))) = ?k i" if "i < length t" for i
    using each [OF that] by blast
  have "\<forall>i \<in> set [0..<length t]. i < length ?pop
       \<and> (\<exists>cs. content_to_append (?pop ! i) (t ! i) = Inr cs)"
    using len each by auto
  then have "gamma_apply_feasible_manipulations self t x =
      Inr (x @ concat (map (\<lambda>i. projr (content_to_append (?pop ! i) (t ! i))) [0..<length t]))"
    unfolding gamma_apply_feasible_manipulations_def by (rule gamma_append_eq)
  also have "map (\<lambda>i. projr (content_to_append (?pop ! i) (t ! i))) [0..<length t]
      = map2 (\<lambda>content k. take (nat k) content) ?pop ?ks"
    using len by (intro nth_equalityI) (simp_all add: cta)
  finally have res: "gamma_apply_feasible_manipulations self t x =
      Inr (x @ concat (map2 (\<lambda>content k. take (nat k) content) ?pop ?ks))" .
  have "map (\<lambda>cs. int (length cs)) (map2 (\<lambda>content k. take (nat k) content) ?pop ?ks) = ?ks"
    using len by (intro nth_equalityI) (simp_all add: lenk del: length_take)
  then have "int (length (concat (map2 (\<lambda>content k. take (nat k) content) ?pop ?ks))) = sum_list ?ks"
    by (simp add: length_concat int_sum_list comp_def del: length_take)
  with res have size: "\<forall>y. gamma_apply_feasible_manipulations self t x = Inr y \<longrightarrow>
      int (length y) = int (length x) + sum_list ?ks"
    by simp
  have counts: "\<forall>i < length t. take_count (?pop ! i) (t ! i) = Inr (?ks ! i)
                  \<and> 0 \<le> ?ks ! i \<and> ?ks ! i \<le> int (length (?pop ! i))"
    using each by simp
  have first: "\<exists>ks. length ks = length t
            \<and> (\<forall>i < length t. take_count (?pop ! i) (t ! i) = Inr (ks ! i)
                  \<and> 0 \<le> ks ! i \<and> ks ! i \<le> int (length (?pop ! i)))
            \<and> gamma_apply_feasible_manipulations self t x =
                 Inr (x @ concat (map2 (\<lambda>content k. take (nat k) content) ?pop ks))
            \<and> (\<forall>y. gamma_apply_feasible_manipulations self t x = Inr y \<longrightarrow>
                  int (length y) = int (length x) + sum_list ks)"
    using counts res size by (intro exI [of _ ?ks] conjI) (simp_all only: length_map length_upt minus_nat.diff_0)
  have "\<forall>content a b ka kb. 0 \<le> a \<and> a \<le> b \<and> take_count content a = Inr ka
                \<and> take_count content b = Inr kb \<longrightarrow> ka \<le> kb"
    using take_count_mono by blast
  with first show ?thesis by blast
qed

theorem gamma_raw_append_witness:
  "length [1 / 2, 1 :: real] = length (section_population (CGammaEvasionProblem [[1, 2, 3], [4, 5]] []))
   \<and> set [1 / 2, 1 :: real] \<subseteq> {0..1}
   \<and> length [1, 2, 3 :: int] < 2 ^ 53 \<and> length [4, 5 :: int] < 2 ^ 53
   \<and> take_count [1, 2, 3] (1 / 2) = Inr 2 \<and> take_count [4, 5] 1 = Inr 2
   \<and> gamma_apply_feasible_manipulations (CGammaEvasionProblem [[1, 2, 3], [4, 5]] []) [1 / 2, 1] [77, 90]
       = Inr [77, 90, 1, 2, 4, 5]
   \<and> (0 :: real) \<le> 0 \<and> (0 :: real) \<le> 1 / 2 \<and> take_count [1, 2, 3] 0 = Inr 0"
  using gamma_raw_append [of "[1 / 2, 1]" "CGammaEvasionProblem [[1, 2, 3], [4, 5]] []" "[77, 90]"]
  by (simp add: gamma_apply_feasible_manipulations_def CGammaEvasionProblem_def
      content_to_append_def slice_to_def take_count_def b64_mul_def b64_round_numeral
      b64_round_numeral_half py_round_def)

subsection \<open>Byte range of the decoded values\<close>

text \<open>
  The claim C3 as stated fails: a component outside \<open>[0, 1]\<close> is not clamped. The padding
  decoder appends 510 for the component 2.
\<close>

theorem decode_not_clamped_counterexample:
  "padding_apply_feasible_manipulations [2] [77, 90] = [77, 90, 510]"
  by (simp add: padding_apply_feasible_manipulations_def byte_values_def)

text \<open>
  C3, amended. For latent vectors with all components in \<open>[0, 1]\<close> (one for each decoder)
  and an original whose entries are bytes, every value of the padding result is a byte; so
  is every value of a header result and, when the corpus holds bytes, of a raw-append
  result. The padding decoder is total; the header decoder returns when the vector has a
  component for every offset and every offset lies in the file; the raw-append decoder
  returns when the vector has one component per corpus entry and every content is shorter
  than \<open>2\<^sup>5\<^sup>3\<close> bytes. Nothing is said of vectors with a component outside \<open>[0, 1]\<close>.
\<close>

theorem decoded_values_in_byte_range:
  assumes unit: "\<forall>c \<in> set tp \<union> set th \<union> set tg. 0 \<le> c \<and> c \<le> 1"
    and orig: "\<forall>v \<in> set x. 0 \<le> v \<and> v \<le> 255"
  shows "(\<forall>v \<in> set (padding_apply_feasible_manipulations tp x). 0 \<le> v \<and> v \<le> 255)
    \<and> (\<forall>y. header_apply_feasible_manipulations hdr th x = Inr y \<longrightarrow> (\<forall>v \<in> set y. 0 \<le> v \<and> v \<le> 255))
    \<and> (length (indexes_to_perturb hdr) \<le> length th \<and> (\<forall>j \<in> set (indexes_to_perturb hdr). j < length x)
          \<longrightarrow> (\<exists>y. header_apply_feasible_manipulations hdr th x = Inr y))
    \<and> ((\<forall>content \<in> set (section_population gam). \<forall>v \<in> set content. 0 \<le> v \<and> v \<le> 255)
          \<longrightarrow> (\<forall>y. gamma_apply_feasible_manipulations gam tg x = Inr y \<longrightarrow>
                  (\<forall>v \<in> set y. 0 \<le> v \<and> v \<le> 255)))
    \<and> (length tg = length (section_population gam)
          \<and> (\<forall>content \<in> set (section_population gam). length content < 2 ^ 53)
          \<longrightarrow> (\<exists>y. gamma_apply_feasible_manipulations gam tg x = Inr y))"
proof -
  from unit have up: "\<forall>c \<in> set tp. 0 \<le> c \<and> c \<le> 1" and uh: "\<forall>c \<in> set th. 0 \<le> c \<and> c \<le> 1"
    and ug: "\<forall>c \<in> set tg. 0 \<le> c \<and> c \<le> 1"
    by auto
  have bvp: "\<forall>v \<in> set (byte_values tp). 0 \<le> v \<and> v \<le> 255" using up by (rule byte_values_unit)
  have bvh: "\<forall>v \<in> set (byte_values th). 0 \<le> v \<and> v \<le> 255" using uh by (rule byte_values_unit)
  have pad: "\<forall>v \<in> set (padding_apply_feasible_manipulations tp x). 0 \<le> v \<and> v \<le> 255"
    using bvp orig by (auto simp: padding_apply_feasible_manipulations_def)
  have hdr: "\<forall>y. header_apply_feasible_manipulations hdr th x = Inr y \<longrightarrow> (\<forall>v \<in> set y. 0 \<le> v \<and> v \<le> 255)"
  proof (intro allI impI ballI)
    fix y v assume "header_apply_feasible_manipulations hdr th x = Inr y" "v \<in> set y"
    then have "v \<in> set x \<union> set (byte_values th)"
      unfolding header_apply_feasible_manipulations_def
      using header_overwrite_frame by blast
    with bvh orig show "0 \<le> v \<and> v \<le> 255" by auto
  qed
  have hdr_ok: "length (indexes_to_perturb hdr) \<le> length th \<and> (\<forall>j \<in> set (indexes_to_perturb hdr). j < length x)
          \<longrightarrow> (\<exists>y. header_apply_feasible_manipulations hdr th x = Inr y)"
    unfolding header_apply_feasible_manipulations_def
    by (auto intro!: header_overwrite_succeeds)
  have gam_ok: "length tg = length (section_population gam)
          \<and> (\<forall>content \<in> set (section_population gam). length content < 2 ^ 53)
          \<longrightarrow> (\<exists>y. gamma_apply_feasible_manipulations gam tg x = Inr y)"
  proof (intro impI)
    assume a: "length tg = length (section_population gam)
          \<and> (\<forall>content \<in> set (section_population gam). length content < 2 ^ 53)"
    have "\<forall>i \<in> set [0..<length tg]. i < length (section_population gam)
       \<and> (\<exists>cs. content_to_append (section_population gam ! i) (tg ! i) = Inr cs)"
    proof
      fix i assume "i \<in> set [0..<length tg]"
      then have i: "i < length tg" by simp
      with ug have ti: "0 \<le> tg ! i" "tg ! i \<le> 1" by simp_all
      from i a have "length (section_population gam ! i) < 2 ^ 53" by simp
      from content_to_append_unit [OF ti this] i a
      show "i < length (section_population gam)
         \<and> (\<exists>cs. content_to_append (section_population gam ! i) (tg ! i) = Inr cs)" by auto
    qed
    from gamma_append_eq [OF this] show "\<exists>y. gamma_apply_feasible_manipulations gam tg x = Inr y"
      by (simp add: gamma_apply_feasible_manipulations_def)
  qed
  have gam: "(\<forall>content \<in> set (section_population gam). \<forall>v \<in> set content. 0 \<le> v \<and> v \<le> 255)
          \<longrightarrow> (\<forall>y. gamma_apply_feasible_manipulations gam tg x = Inr y \<longrightarrow>
                  (\<forall>v \<in> set y. 0 \<le> v \<and> v \<le> 255))"
  proof (intro allI impI ballI)
    fix y v
    assume pop: "\<forall>content \<in> set (section_population gam). \<forall>v \<in> set content. 0 \<le> v \<and> v \<le> 255"
      and res: "gamma_apply_feasible_manipulations gam tg x = Inr y" and v: "v \<in> set y"
    from res have "set y \<subseteq> set x \<union> \<Union> (set ` set (section_population gam))"
      unfolding gamma_apply_feasible_manipulations_def by (rule gamma_append_subset)
    with v pop orig show "0 \<le> v \<and> v \<le> 255" by blast
  qed
  from pad hdr hdr_ok gam gam_ok show ?thesis by blast
qed

theorem decoded_values_in_byte_range_witness:
  "set [1 / 2, 1 :: real] \<union> set (replicate 58 (1 / 2 :: real)) \<union> set [1 / 2, 1 :: real] \<subseteq> {0..1}
   \<and> set (replicate 64 (7 :: int)) \<subseteq> {0..255}
   \<and> padding_apply_feasible_manipulations [1 / 2, 1] (replicate 64 7) = replicate 64 7 @ [127, 255]
   \<and> header_apply_feasible_manipulations (CBlackBoxHeaderEvasionProblem False 256)
        (replicate 58 (1 / 2)) (replicate 64 7) = Inr ([7, 7] @ replicate 58 127 @ [7, 7, 7, 7])
   \<and> set ([7, 7] @ replicate 58 127 @ [7, 7, 7, 7 :: int]) \<subseteq> {0..255}
   \<and> length [1, 2, 3 :: int] < 2 ^ 53 \<and> length [4, 5 :: int] < 2 ^ 53
   \<and> gamma_apply_feasible_manipulations (CGammaEvasionProblem [[1, 2, 3], [4, 5]] []) [1 / 2, 1]
        (replicate 64 7) = Inr (replicate 64 7 @ [1, 2, 4, 5])"
proof -
  have pad: "padding_apply_feasible_manipulations [1 / 2, 1] (replicate 64 7) = replicate 64 7 @ [127, 255]"
    by (simp add: padding_apply_feasible_manipulations_def byte_values_def)
  have gam: "gamma_apply_feasible_manipulations (CGammaEvasionProblem [[1, 2, 3], [4, 5]] []) [1 / 2, 1]
        (replicate 64 7) = Inr (replicate 64 7 @ [1, 2, 4, 5])"
    by (simp add: gamma_apply_feasible_manipulations_def CGammaEvasionProblem_def
        content_to_append_def slice_to_def take_count_def b64_mul_def b64_round_numeral
        b64_round_numeral_half py_round_def)
  from decoded_values_in_byte_range [of "[1 / 2, 1]" "replicate 58 (1 / 2)" "[1 / 2, 1]"
      "replicate 64 7" "CBlackBoxHeaderEvasionProblem False 256"
      "CGammaEvasionProblem [[1, 2, 3], [4, 5]] []"]
    pad gam header_decode_example
  show ?thesis by simp
qed

subsection \<open>The DOS header\<close>

text \<open>
  C2. Let the initializer of the base class leave \<open>indexes_to_perturb\<close> and
  \<open>latent_space_size\<close> as it finds them. Constructed with \<^verbatim>\<open>optimize_all_dos=False\<close>, the
  problem has the offsets \<open>[2, 60)\<close>, and \<^verbatim>\<open>init_starting_point\<close> leaves it with the offsets
  \<open>[2, 60)\<close> and 58 latent components whatever the file holds. With \<^verbatim>\<open>optimize_all_dos=True\<close>
  and a file whose entries 60 to 63 are bytes, \<open>P\<close> their little-endian value,
  \<^verbatim>\<open>init_starting_point\<close> leaves the offsets \<open>[2, 60) \<union> [64, P)\<close> when \<open>64 < P\<close> and \<open>[2, 60)\<close>
  otherwise, and \<open>latent_space_size\<close> is their number.
\<close>

theorem header_indexes_to_perturb:
  assumes frame: "\<forall>s y. indexes_to_perturb (snd (super_init s y)) = indexes_to_perturb s
                      \<and> latent_space_size (snd (super_init s y)) = latent_space_size s"
  shows "indexes_to_perturb (CBlackBoxHeaderEvasionProblem False invalid) = [2..<60]
    \<and> (\<not> optimize_all_dos self \<longrightarrow>
         indexes_to_perturb (snd (header_init_starting_point super_init self x)) = [2..<60]
         \<and> latent_space_size (snd (header_init_starting_point super_init self x)) = 58)
    \<and> (optimize_all_dos self \<and> 64 \<le> length x
         \<and> (\<forall>v \<in> set (take 4 (drop 60 x)). 0 \<le> v \<and> v \<le> 255) \<longrightarrow>
         (let P = nat (x ! 60 + 256 * (x ! 61) + 65536 * (x ! 62) + 16777216 * (x ! 63));
              self' = snd (header_init_starting_point super_init self x)
          in indexes_to_perturb self' = (if 64 < P then [2..<60] @ [64..<P] else [2..<60])
             \<and> latent_space_size self' = length (indexes_to_perturb self')))"
proof (intro conjI impI)
  show "indexes_to_perturb (CBlackBoxHeaderEvasionProblem False invalid) = [2..<60]"
    by (simp add: CBlackBoxHeaderEvasionProblem_def)
next
  assume "\<not> optimize_all_dos self"
  then have "header_init_starting_point super_init self x =
      super_init (self\<lparr>indexes_to_perturb := [2..<60], latent_space_size := 58\<rparr>) x"
    by (simp add: header_init_starting_point_def header_set_indexes_base)
  with frame show "indexes_to_perturb (snd (header_init_starting_point super_init self x)) = [2..<60]"
    "latent_space_size (snd (header_init_starting_point super_init self x)) = 58"
    by simp_all
next
  assume a: "optimize_all_dos self \<and> 64 \<le> length x
         \<and> (\<forall>v \<in> set (take 4 (drop 60 x)). 0 \<le> v \<and> v \<le> 255)"
  define P where "P = nat (x ! 60 + 256 * (x ! 61) + 65536 * (x ! 62) + 16777216 * (x ! 63))"
  from a have "header_set_indexes self x =
      (Inr (), self\<lparr>indexes_to_perturb := [2..<60] @ [64..<P], latent_space_size := 58 + (P - 64)\<rparr>)"
    unfolding P_def by (intro header_set_indexes_ok) simp_all
  then have "header_init_starting_point super_init self x =
      super_init (self\<lparr>indexes_to_perturb := [2..<60] @ [64..<P], latent_space_size := 58 + (P - 64)\<rparr>) x"
    by (simp add: header_init_starting_point_def)
  with frame have "indexes_to_perturb (snd (header_init_starting_point super_init self x)) = [2..<60] @ [64..<P]"
    "latent_space_size (snd (header_init_starting_point super_init self x)) = 58 + (P - 64)"
    by simp_all
  then show "let P = nat (x ! 60 + 256 * (x ! 61) + 65536 * (x ! 62) + 16777216 * (x ! 63));
              self' = snd (header_init_starting_point super_init self x)
          in indexes_to_perturb self' = (if 64 < P then [2..<60] @ [64..<P] else [2..<60])
             \<and> latent_space_size self' = length (indexes_to_perturb self')"
    unfolding P_def [symmetric] Let_def by simp
qed

theorem header_indexes_to_perturb_witness:
  "indexes_to_perturb (snd ((\<lambda>s y. (Inr y :: error + int list, s :: header_problem))
      (CBlackBoxHeaderEvasionProblem True 256) [])) = [2..<60]
   \<and> optimize_all_dos (CBlackBoxHeaderEvasionProblem True 256)
   \<and> 64 \<le> length (replicate 60 0 @ [70, 0, 0, 0 :: int])
   \<and> set (take 4 (drop 60 (replicate 60 0 @ [70, 0, 0, 0 :: int]))) \<subseteq> {0..255}
   \<and> indexes_to_perturb (snd (header_init_starting_point (\<lambda>s y. (Inr y :: error + int list, s))
        (CBlackBoxHeaderEvasionProblem True 256) (replicate 60 0 @ [70, 0, 0, 0])))
       = [2..<60] @ [64, 65, 66, 67, 68, 69]
   \<and> latent_space_size (snd (header_init_starting_point (\<lambda>s y. (Inr y :: error + int list, s))
        (CBlackBoxHeaderEvasionProblem True 256) (replicate 60 0 @ [70, 0, 0, 0]))) = 64"
  using header_indexes_to_perturb [of "\<lambda>s y. (Inr y :: error + int list, s)"
      256 "CBlackBoxHeaderEvasionProblem True 256" "replicate 60 0 @ [70, 0, 0, 0]"]
  by (simp add: CBlackBoxHeaderEvasionProblem_def nth_append Let_def upt_rec_numeral)

text \<open>
  The claim C4 as stated fails: on a file of 64 bytes whose pointer is 200, the statements
  of \<^verbatim>\<open>init_starting_point\<close> raise nothing and leave the offsets \<open>[2, 60) \<union> [64, 200)\<close>.
\<close>

theorem header_pointer_unchecked_counterexample:
  "header_set_indexes (CBlackBoxHeaderEvasionProblem True 256) (replicate 60 0 @ [200, 0, 0, 0])
     = (Inr (), \<lparr>latent_space_size = 194, invalid_value = 256,
                 indexes_to_perturb = [2..<60] @ [64..<200], optimize_all_dos = True\<rparr>)
   \<and> length (replicate 60 0 @ [200, 0, 0, 0 :: int]) = 64"
  by (simp add: header_set_indexes_def read_pe_index_def unpack_le32_def
      CBlackBoxHeaderEvasionProblem_def Let_def nth_append)

text \<open>
  C4, amended. With \<^verbatim>\<open>optimize_all_dos=True\<close>, a file of at least 64 entries whose entries 60
  to 63 are bytes, and a pointer \<open>P\<close> beyond the length of the file, \<^verbatim>\<open>init_starting_point\<close>
  does not compare \<open>P\<close> with the length: it raises nothing of its own, sets the offsets to
  \<open>[2, 60) \<union> [64, P)\<close> and \<open>latent_space_size\<close> to their number, and returns what the
  initializer of the base class returns on that object. The decoder then raises
  \<^verbatim>\<open>IndexError\<close> on this file, for every latent vector.
\<close>

theorem header_pointer_out_of_bounds:
  assumes all_dos: "optimize_all_dos self"
    and len: "64 \<le> length x"
    and bytes: "\<forall>v \<in> set (take 4 (drop 60 x)). 0 \<le> v \<and> v \<le> 255"
    and out: "length x < nat (x ! 60 + 256 * (x ! 61) + 65536 * (x ! 62) + 16777216 * (x ! 63))"
  shows "header_init_starting_point super_init self x =
           super_init (self\<lparr>indexes_to_perturb :=
                [2..<60] @ [64..<nat (x ! 60 + 256 * (x ! 61) + 65536 * (x ! 62) + 16777216 * (x ! 63))],
              latent_space_size :=
                58 + (nat (x ! 60 + 256 * (x ! 61) + 65536 * (x ! 62) + 16777216 * (x ! 63)) - 64)\<rparr>) x
    \<and> header_apply_feasible_manipulations (snd (header_set_indexes self x)) t x = Inl IndexError"
proof -
  define P where "P = nat (x ! 60 + 256 * (x ! 61) + 65536 * (x ! 62) + 16777216 * (x ! 63))"
  have set_ok: "header_set_indexes self x =
      (Inr (), self\<lparr>indexes_to_perturb := [2..<60] @ [64..<P], latent_space_size := 58 + (P - 64)\<rparr>)"
    unfolding P_def using all_dos len bytes by (rule header_set_indexes_ok)
  have "length x \<in> set ([2..<60] @ [64..<P])" using len out by (simp add: P_def)
  then have "\<exists>j \<in> set ([2..<60] @ [64..<P]). length x \<le> j" by blast
  then have "header_overwrite (byte_values t) 0 ([2..<60] @ [64..<P]) x = Inl IndexError"
    by (rule header_overwrite_out_of_range)
  with set_ok show ?thesis
    unfolding P_def [symmetric]
    by (simp add: header_init_starting_point_def header_apply_feasible_manipulations_def)
qed

theorem header_pointer_out_of_bounds_witness:
  "optimize_all_dos (CBlackBoxHeaderEvasionProblem True 256)
   \<and> 64 \<le> length (replicate 60 0 @ [200, 0, 0, 0 :: int])
   \<and> set (take 4 (drop 60 (replicate 60 0 @ [200, 0, 0, 0 :: int]))) \<subseteq> {0..255}
   \<and> length (replicate 60 0 @ [200, 0, 0, 0 :: int]) < 200
   \<and> header_init_starting_point (\<lambda>s y. (Inr y :: error + int list, s))
        (CBlackBoxHeaderEvasionProblem True 256) (replicate 60 0 @ [200, 0, 0, 0])
      = (Inr (replicate 60 0 @ [200, 0, 0, 0]),
         \<lparr>latent_space_size = 194, invalid_value = 256,
          indexes_to_perturb = [2..<60] @ [64..<200], optimize_all_dos = True\<rparr>)
   \<and> header_apply_feasible_manipulations
        (snd (header_set_indexes (CBlackBoxHeaderEvasionProblem True 256) (replicate 60 0 @ [200, 0, 0, 0])))
        (replicate 194 (1 / 2)) (replicate 60 0 @ [200, 0, 0, 0]) = Inl IndexError"
  using header_pointer_out_of_bounds [of "CBlackBoxHeaderEvasionProblem True 256"
      "replicate 60 0 @ [200, 0, 0, 0]" "\<lambda>s y. (Inr y :: error + int list, s)" "replicate 194 (1 / 2)"]
  by (simp add: CBlackBoxHeaderEvasionProblem_def nth_append)

text \<open>
  C7. When the header decoder returns, the result has the length of the original and
  agrees with it at every offset that is not in \<open>indexes_to_perturb\<close>. For a problem as the
  constructor or the statements of \<^verbatim>\<open>init_starting_point\<close> leave it, with either value of
  \<^verbatim>\<open>optimize_all_dos\<close> and any file, the entries at the offsets 0 and 1 are those of the
  original.
\<close>

theorem header_decode_frame:
  assumes dec: "header_apply_feasible_manipulations self t x = Inr y"
  shows "length y = length x
    \<and> (\<forall>j < length x. j \<notin> set (indexes_to_perturb self) \<longrightarrow> y ! j = x ! j)
    \<and> (self = CBlackBoxHeaderEvasionProblem all_dos invalid \<or> self = snd (header_set_indexes self0 x0)
         \<longrightarrow> y ! 0 = x ! 0 \<and> y ! 1 = x ! 1)"
proof -
  from dec have ov: "header_overwrite (byte_values t) 0 (indexes_to_perturb self) x = Inr y"
    by (simp add: header_apply_feasible_manipulations_def)
  from header_overwrite_frame [OF ov]
  have fr: "length y = length x" "\<forall>j < length x. j \<notin> set (indexes_to_perturb self) \<longrightarrow> y ! j = x ! j"
    by simp_all
  have "y ! 0 = x ! 0 \<and> y ! 1 = x ! 1"
    if cfg: "self = CBlackBoxHeaderEvasionProblem all_dos invalid \<or> self = snd (header_set_indexes self0 x0)"
  proof -
    from cfg have magic: "0 \<notin> set (indexes_to_perturb self)" "Suc 0 \<notin> set (indexes_to_perturb self)"
      "2 \<in> set (indexes_to_perturb self)"
      using header_set_indexes_magic [of self0 x0]
      by (auto simp: CBlackBoxHeaderEvasionProblem_def)
    from header_overwrite_in_range [OF ov] magic(3) have "2 < length x" by blast
    then have "0 < length x" "Suc 0 < length x" by linarith+
    with fr(2) magic show ?thesis by auto
  qed
  with fr show ?thesis by blast
qed

theorem header_decode_frame_witness:
  "header_apply_feasible_manipulations (CBlackBoxHeaderEvasionProblem False 256)
       (replicate 58 (1 / 2)) (replicate 64 7)
     = Inr ([7, 7] @ replicate 58 127 @ [7, 7, 7, 7])
   \<and> length ([7, 7] @ replicate 58 127 @ [7, 7, 7, 7 :: int]) = length (replicate 64 (7 :: int))
   \<and> ([7, 7] @ replicate 58 127 @ [7, 7, 7, 7 :: int]) ! 0 = replicate 64 7 ! 0
   \<and> ([7, 7] @ replicate 58 127 @ [7, 7, 7, 7 :: int]) ! 1 = replicate 64 7 ! 1
   \<and> ([7, 7] @ replicate 58 127 @ [7, 7, 7, 7 :: int]) ! 62 = replicate 64 7 ! 62"
proof -
  note dec = header_decode_example
  have idx: "62 \<notin> set (indexes_to_perturb (CBlackBoxHeaderEvasionProblem False 256))"
    by (simp add: CBlackBoxHeaderEvasionProblem_def)
  from header_decode_frame [OF dec, of False 256] idx dec show ?thesis
    by (simp add: nth_append)
qed

subsection \<open>Registered sections\<close>

text \<open>
  C8. When the decoder returns, the original has parsed, one list \<open>ns\<close> of names, one per
  corpus entry, has been appended to \<^verbatim>\<open>names_\<close>, the sections given to \<open>add_section\<close> carry
  these names in order, each with the prefix \<open>content_to_append\<close> of its corpus entry, and
  \<^verbatim>\<open>best_names_\<close> is as before. When \<^verbatim>\<open>best_names_\<close> is not empty, \<open>ns\<close> is its first
  \<open>latent_space_size\<close> names (all of it when it has that many) and the random generator has
  not been used. When \<^verbatim>\<open>best_names_\<close> is empty, every name of \<open>ns\<close> is eight letters of
  \<^verbatim>\<open>string.ascii_letters\<close>.
\<close>

theorem section_names_continuity:
  assumes "sections_apply_feasible_manipulations L self g t x = (Inr y, self', g')"
  shows "\<exists>ns cs b0. parse L x = Some b0
     \<and> self_names self' = self_names self @ [ns]
     \<and> self_best_names self' = self_best_names self
     \<and> length ns = latent_space_size self
     \<and> length cs = latent_space_size self
     \<and> (\<forall>i < latent_space_size self.
           content_to_append (section_population self ! i) (t ! i) = Inr (cs ! i))
     \<and> y = build L (foldl (add_section L) b0 (map2 (\<lambda>n c. \<lparr>name = n, content = c\<rparr>) ns cs))
     \<and> (self_best_names self \<noteq> [] \<longrightarrow>
           ns = take (latent_space_size self) (self_best_names self) \<and> g' = g)
     \<and> (self_best_names self \<noteq> [] \<and> length (self_best_names self) = latent_space_size self \<longrightarrow>
           ns = self_best_names self)
     \<and> (self_best_names self = [] \<longrightarrow>
           (\<forall>n \<in> set ns. length n = 8 \<and> set n \<subseteq> set ascii_letters))"
proof -
  from sections_apply_result [OF assms] obtain ns cs b0 where r: "parse L x = Some b0"
    "self' = self\<lparr>self_names := self_names self @ [ns]\<rparr>"
    "length ns = latent_space_size self"
    "length cs = latent_space_size self"
    "\<forall>i < latent_space_size self. i < length (section_population self) \<and> i < length t
           \<and> content_to_append (section_population self ! i) (t ! i) = Inr (cs ! i)"
    "y = build L (foldl (add_section L) b0 (map2 (\<lambda>n c. \<lparr>name = n, content = c\<rparr>) ns cs))"
    "self_best_names self \<noteq> [] \<longrightarrow>
           ns = take (latent_space_size self) (self_best_names self) \<and> g' = g"
    "self_best_names self = [] \<longrightarrow>
           (\<forall>n \<in> set ns. length n = 8 \<and> set n \<subseteq> set ascii_letters)"
    by blast
  from r(7) have "self_best_names self \<noteq> [] \<and> length (self_best_names self) = latent_space_size self \<longrightarrow>
           ns = self_best_names self" by simp
  with r show ?thesis by (intro exI [of _ ns] exI [of _ cs] exI [of _ b0]) simp
qed

theorem section_names_continuity_witness:
  "sections_apply_feasible_manipulations toy_lief
      ((CGammaSectionsEvasionProblem [[1, 2, 3], [4, 5]] [] True)
         \<lparr>self_names := [[''Qrstuvwx'', ''yzABCDEF'']],
          self_best_names := [''Qrstuvwx'', ''yzABCDEF'']\<rparr>)
      (\<lambda>n. n) [1 / 2, 1] [77, 90]
    = (Inr [2, 77, 90, 2, 1, 2, 2, 4, 5],
       (CGammaSectionsEvasionProblem [[1, 2, 3], [4, 5]] [] True)
         \<lparr>self_names := [[''Qrstuvwx'', ''yzABCDEF''], [''Qrstuvwx'', ''yzABCDEF'']],
          self_best_names := [''Qrstuvwx'', ''yzABCDEF'']\<rparr>,
       (\<lambda>n. n))
   \<and> fst (sections_apply_feasible_manipulations toy_lief
          (CGammaSectionsEvasionProblem [[1, 2, 3], [4, 5]] [] True) (\<lambda>n. n) [1 / 2, 1] [77, 90])
     = Inr [2, 77, 90, 2, 1, 2, 2, 4, 5]
   \<and> self_names (fst (snd (sections_apply_feasible_manipulations toy_lief
          (CGammaSectionsEvasionProblem [[1, 2, 3], [4, 5]] [] True) (\<lambda>n. n) [1 / 2, 1] [77, 90])))
     = [[''abcdefgh'', ''ijklmnop'']]"
proof -
  let ?self = "CGammaSectionsEvasionProblem [[1, 2, 3], [4, 5]] [] True"
  let ?best = "?self\<lparr>self_names := [[''Qrstuvwx'', ''yzABCDEF'']],
                     self_best_names := [''Qrstuvwx'', ''yzABCDEF'']\<rparr>"
  have c1: "content_to_append [1, 2, 3] (1 / 2) = Inr [1, 2]"
    and c2: "content_to_append [4, 5] 1 = Inr [4, 5]"
    by (simp_all add: content_to_append_def slice_to_def take_count_def b64_mul_def
        b64_round_numeral b64_round_numeral_half py_round_def)
  have reuse: "sections_apply_feasible_manipulations toy_lief ?best (\<lambda>n. n) [1 / 2, 1] [77, 90]
    = (Inr [2, 77, 90, 2, 1, 2, 2, 4, 5],
       ?self\<lparr>self_names := [[''Qrstuvwx'', ''yzABCDEF''], [''Qrstuvwx'', ''yzABCDEF'']],
              self_best_names := [''Qrstuvwx'', ''yzABCDEF'']\<rparr>,
       (\<lambda>n. n))"
    by (simp add: sections_apply_feasible_manipulations_def CGammaSectionsEvasionProblem_def
        toy_lief_def c1 c2)
  obtain g' where fresh: "sections_apply_feasible_manipulations toy_lief ?self (\<lambda>n. n) [1 / 2, 1] [77, 90]
    = (Inr [2, 77, 90, 2, 1, 2, 2, 4, 5], ?self\<lparr>self_names := [[''abcdefgh'', ''ijklmnop'']]\<rparr>, g')"
    by (simp add: sections_apply_feasible_manipulations_def CGammaSectionsEvasionProblem_def
        toy_lief_def c1 c2 random_letters_numeral random_letters_1 random_choice_def
        ascii_letters_def)
  from section_names_continuity [OF reuse] section_names_continuity [OF fresh] reuse fresh
  show ?thesis by simp
qed


text \<open>
  C9. When \<^verbatim>\<open>_export_internal_results\<close> returns, \<^verbatim>\<open>best_names_\<close> is \<^verbatim>\<open>names_[k]\<close>, where
  \<open>k + 1\<close> is the first position of the least value of the fitness history without its
  position 0: no value at a position from 1 on is below it and every earlier one from 1
  on is above it. Both attributes are read as the hook of the base class left them. The
  name list at position \<open>k\<close> is the one recorded by the \<open>k\<close>-th call of the decoder since
  \<^verbatim>\<open>init_starting_point\<close>.
\<close>

theorem best_names_argmin:
  assumes "sections_export_internal_results super_export self = (Inr res, self')"
  shows "\<exists>self1 k. super_export self = (Inr res, self1)
     \<and> self_best_names self' = self_names self1 ! k
     \<and> k < length (self_names self1)
     \<and> Suc k < length (self_fitness self1)
     \<and> (\<forall>j. Suc j < length (self_fitness self1) \<longrightarrow> self_fitness self1 ! Suc k \<le> self_fitness self1 ! Suc j)
     \<and> (\<forall>j < k. self_fitness self1 ! Suc k < self_fitness self1 ! Suc j)"
proof -
  obtain r self1 where sup: "super_export self = (r, self1)" by (cases "super_export self")
  from assms sup have r: "r = Inr res"
    by (cases r) (auto simp: sections_export_internal_results_def split: sum.splits if_splits)
  from assms sup r obtain k where k: "argmin (drop 1 (self_fitness self1)) = Inr k"
    by (cases "argmin (drop 1 (self_fitness self1))")
       (auto simp: sections_export_internal_results_def)
  from assms sup r k have res: "k < length (self_names self1)"
    "self' = self1\<lparr>self_best_names := self_names self1 ! k\<rparr>"
    by (auto simp: sections_export_internal_results_def split: if_splits)
  let ?f = "self_fitness self1"
  from argmin_first [OF k] have a: "k < length (drop 1 ?f)"
    "\<forall>i < length (drop 1 ?f). drop 1 ?f ! k \<le> drop 1 ?f ! i"
    "\<forall>i < k. drop 1 ?f ! k < drop 1 ?f ! i" by simp_all
  from a(1) have lk: "Suc k < length ?f" by simp
  have nth: "drop 1 ?f ! i = ?f ! Suc i" if "Suc i < length ?f" for i
    using that by simp
  have le: "\<forall>j. Suc j < length ?f \<longrightarrow> ?f ! Suc k \<le> ?f ! Suc j"
  proof (intro allI impI)
    fix j assume j: "Suc j < length ?f"
    then have "j < length (drop 1 ?f)" by simp
    with a(2) have "drop 1 ?f ! k \<le> drop 1 ?f ! j" by simp
    with nth [OF lk] nth [OF j] show "?f ! Suc k \<le> ?f ! Suc j" by simp
  qed
  have lt: "\<forall>j < k. ?f ! Suc k < ?f ! Suc j"
  proof (intro allI impI)
    fix j assume j: "j < k"
    with lk have j': "Suc j < length ?f" by simp
    from a(3) j have "drop 1 ?f ! k < drop 1 ?f ! j" by simp
    with nth [OF lk] nth [OF j'] show "?f ! Suc k < ?f ! Suc j" by simp
  qed
  from sup r res lk le lt show ?thesis by auto
qed

theorem best_names_argmin_witness:
  "sections_export_internal_results (\<lambda>s. (Inr (), s))
      ((CGammaSectionsEvasionProblem [[1, 2, 3]] [9 / 10, 7 / 10, 2 / 5, 2 / 5] True)
         \<lparr>self_names := [[''abcdefgh''], [''ijklmnop''], [''qrstuvwx'']]\<rparr>)
    = (Inr (),
       (CGammaSectionsEvasionProblem [[1, 2, 3]] [9 / 10, 7 / 10, 2 / 5, 2 / 5] True)
         \<lparr>self_names := [[''abcdefgh''], [''ijklmnop''], [''qrstuvwx'']],
          self_best_names := [''ijklmnop'']\<rparr>)"
proof -
  have ex: "sections_export_internal_results (\<lambda>s. (Inr (), s))
      ((CGammaSectionsEvasionProblem [[1, 2, 3]] [9 / 10, 7 / 10, 2 / 5, 2 / 5] True)
         \<lparr>self_names := [[''abcdefgh''], [''ijklmnop''], [''qrstuvwx'']]\<rparr>)
    = (Inr (),
       (CGammaSectionsEvasionProblem [[1, 2, 3]] [9 / 10, 7 / 10, 2 / 5, 2 / 5] True)
         \<lparr>self_names := [[''abcdefgh''], [''ijklmnop''], [''qrstuvwx'']],
          self_best_names := [''ijklmnop'']\<rparr>)"
    by (simp add: sections_export_internal_results_def CGammaSectionsEvasionProblem_def argmin_def)
  from best_names_argmin [OF ex] ex show ?thesis by simp
qed

text \<open>
  C10. The decoder does not read \<^verbatim>\<open>random_names\<close>. On an object with the flag set it returns
  the outcome and the generator it returns on the same object with the flag cleared, and
  it leaves the two objects equal up to the flag. The constructor stores the flag and
  nothing else depends on it.
\<close>

theorem random_names_unused:
  "sections_apply_feasible_manipulations L (self\<lparr>random_names := True\<rparr>) g t x =
     (case sections_apply_feasible_manipulations L (self\<lparr>random_names := False\<rparr>) g t x of
        (r, self', g') \<Rightarrow> (r, self'\<lparr>random_names := True\<rparr>, g'))
   \<and> CGammaSectionsEvasionProblem population fitness0 True
       = (CGammaSectionsEvasionProblem population fitness0 False)\<lparr>random_names := True\<rparr>"
  by (simp add: sections_apply_feasible_manipulations_def inject_sections_flag Let_def
      CGammaSectionsEvasionProblem_def split: prod.splits sum.splits option.splits)

theorem random_names_unused_witness:
  "fst (sections_apply_feasible_manipulations toy_lief
          (CGammaSectionsEvasionProblem [[1, 2, 3], [4, 5]] [] True) (\<lambda>n. n) [1 / 2, 1] [77, 90])
     = fst (sections_apply_feasible_manipulations toy_lief
          (CGammaSectionsEvasionProblem [[1, 2, 3], [4, 5]] [] False) (\<lambda>n. n) [1 / 2, 1] [77, 90])"
  using random_names_unused [of toy_lief "CGammaSectionsEvasionProblem [[1, 2, 3], [4, 5]] [] False"
      "\<lambda>n. n" "[1 / 2, 1]" "[77, 90]" "[[1, 2, 3], [4, 5]]" "[]"]
  by (simp add: CGammaSectionsEvasionProblem_def split: prod.splits)

end
